theory Spec2Isabelle
  imports Complex_Main "HOL-Library.Multiset"
begin

section \<open>JavaScript values used by the reporter\<close>

text \<open>
  A JavaScript \<open>number\<close> is an IEEE double. The reporter only compares numbers and takes
  minima and maxima of them, so a finite double is represented by the real it denotes;
  \<open>NaN\<close> and the two infinities are kept apart because \<open>||\<close>, \<open>Math.min\<close>, \<open>Math.max\<close>
  and \<open>>\<close> treat them specially.
\<close>

datatype number = NaN | NegInf | Fin real | PosInf

text \<open>The relational operator \<open>a < b\<close>: every comparison with \<open>NaN\<close> is false.\<close>

fun num_less :: "number \<Rightarrow> number \<Rightarrow> bool" where
  "num_less NaN b = False"
| "num_less a NaN = False"
| "num_less PosInf b = False"
| "num_less a NegInf = False"
| "num_less NegInf b = True"
| "num_less a PosInf = True"
| "num_less (Fin x) (Fin y) = (x < y)"

text \<open>\<open>Math.min(a, b)\<close> and \<open>Math.max(a, b)\<close>: \<open>NaN\<close> if an argument is \<open>NaN\<close>.\<close>

definition Math_min :: "number \<Rightarrow> number \<Rightarrow> number" where
  "Math_min a b = (if a = NaN \<or> b = NaN then NaN else if num_less b a then b else a)"

definition Math_max :: "number \<Rightarrow> number \<Rightarrow> number" where
  "Math_max a b = (if a = NaN \<or> b = NaN then NaN else if num_less a b then b else a)"

text \<open>
  Optional values are \<open>None\<close> when \<open>undefined\<close>. \<open>a || d\<close> yields \<open>d\<close> when \<open>a\<close> is falsy:
  \<open>undefined\<close>, the empty string, the numbers \<open>0\<close> and \<open>NaN\<close>. \<open>a ?? d\<close> yields \<open>d\<close> only when
  \<open>a\<close> is \<open>undefined\<close>.
\<close>

definition or_string :: "string option \<Rightarrow> string \<Rightarrow> string" where
  "or_string a d = (case a of None \<Rightarrow> d | Some s \<Rightarrow> if s = [] then d else s)"

definition or_number :: "number option \<Rightarrow> number \<Rightarrow> number" where
  "or_number a d =
     (case a of None \<Rightarrow> d | Some x \<Rightarrow> if x = NaN \<or> x = Fin 0 then d else x)"

definition nullish :: "'a option \<Rightarrow> 'a \<Rightarrow> 'a" where
  "nullish a d = (case a of None \<Rightarrow> d | Some x \<Rightarrow> x)"

text \<open>Optional chaining \<open>options?.field\<close> on an options object that may itself be absent.\<close>

definition chain :: "'r option \<Rightarrow> ('r \<Rightarrow> 'a option) \<Rightarrow> 'a option" where
  "chain options field = (case options of None \<Rightarrow> None | Some r \<Rightarrow> field r)"


section \<open>Reporter options\<close>

text \<open>\<open>MyCustomReporterOptions\<close>: every field is optional.\<close>

record MyCustomReporterOptions =
  opt_outputFolder :: "string option"
  opt_reportFileName :: "string option"
  opt_inlineCss :: "bool option"
  opt_embedAssets :: "bool option"
  opt_applicationName :: "string option"
  opt_applicationLogoPath :: "string option"
  opt_reportTitle :: "string option"
  opt_qaLead :: "string option"
  opt_executionType :: "string option"
  opt_sprint :: "string option"
  opt_release :: "string option"
  opt_buildNo :: "string option"
  opt_compressImages :: "bool option"
  opt_imageQuality :: "number option"
  opt_resetHistory :: "bool option"
  opt_historyTrend :: "number option"

text \<open>\<open>Required<MyCustomReporterOptions>\<close>: the normalised configuration.\<close>

record Options =
  outputFolder :: string
  reportFileName :: string
  inlineCss :: bool
  embedAssets :: bool
  applicationName :: string
  applicationLogoPath :: string
  reportTitle :: string
  qaLead :: string
  executionType :: string
  sprint :: string
  release :: string
  buildNo :: string
  compressImages :: bool
  imageQuality :: number
  resetHistory :: bool
  historyTrend :: number

text \<open>The constructor of \<open>MyCustomReporter\<close>.\<close>

definition defaulted :: "MyCustomReporterOptions option \<Rightarrow> Options" where
  "defaulted options =
     \<lparr> outputFolder = or_string (chain options opt_outputFolder) ''playwright-custom-report'',
       reportFileName = or_string (chain options opt_reportFileName) ''index.html'',
       inlineCss = nullish (chain options opt_inlineCss) True,
       embedAssets = nullish (chain options opt_embedAssets) False,
       applicationName = or_string (chain options opt_applicationName) ''Test Suite'',
       applicationLogoPath = or_string (chain options opt_applicationLogoPath) '''',
       reportTitle = or_string (chain options opt_reportTitle) ''Failure Analysis Report'',
       qaLead = or_string (chain options opt_qaLead) ''Hari Prasath S'',
       executionType = or_string (chain options opt_executionType) ''Regression'',
       sprint = or_string (chain options opt_sprint) ''N/A'',
       release = or_string (chain options opt_release) ''N/A'',
       buildNo = or_string (chain options opt_buildNo) ''N/A'',
       compressImages = nullish (chain options opt_compressImages) True,
       imageQuality =
         Math_max (Fin 1) (Math_min (Fin 100) (or_number (chain options opt_imageQuality) (Fin 80))),
       resetHistory = nullish (chain options opt_resetHistory) False,
       historyTrend = or_number (chain options opt_historyTrend) (Fin 4) \<rparr>"

definition MyCustomReporter_constructor :: "MyCustomReporterOptions option \<Rightarrow> Options" where
  "MyCustomReporter_constructor options =
     (let this_options = defaulted options
      in if embedAssets this_options then this_options\<lparr>inlineCss := True\<rparr> else this_options)"


section \<open>Data reported by the test runner\<close>

text \<open>\<open>TestResult["status"]\<close>, also the type of \<open>TestCase.expectedStatus\<close>.\<close>

datatype status = Passed | Failed | TimedOut | Skipped | Interrupted

type_synonym buffer = "nat list"

text \<open>
  A raw attachment, \<open>TestResult["attachments"][0]\<close>. The code guards against a missing
  content type (\<open>contentType?.\<close>, \<open>contentType || ...\<close>), so the field is optional here.
\<close>

record attachment =
  name :: string
  contentType :: "string option"
  path :: "string option"
  body :: "buffer option"

text \<open>
  The fields of \<open>TestResult\<close> and \<open>TestCase\<close> that consolidation reads for status,
  counters, retries and attachments. Error messages, steps, the title path and the
  source location are turned into display strings by total string functions that feed
  no other field; they are left out.
\<close>

record TestResult =
  status :: status
  duration :: number
  attachments :: "attachment list"
  retry :: nat

record TestCase =
  test_id :: string
  title :: string
  expectedStatus :: status
  project_name :: "string option"


section \<open>The world outside the reporter\<close>

datatype error = TypeError | SyntaxError | FsError string | SharpError | Unsettled

text \<open>A history entry; \<open>timestamp\<close> is an ISO 8601 string.\<close>

record HistoryEntry =
  h_buildNo :: string
  h_total :: nat
  h_passed :: nat
  h_timestamp :: string

text \<open>
  Library and operating-system calls are parameters of the model. Calls that can throw
  or reject return an error value. \<open>Date_now tid i j\<close> is the clock reading taken while
  the \<open>j\<close>-th attachment of the \<open>i\<close>-th attempt of test \<open>tid\<close> is processed, and
  \<open>settle_order tid i\<close> is the order in which the promises of that attempt's attachments
  settle. \<open>Date_getTime s\<close> is \<open>new Date(s).getTime()\<close>, \<open>None\<close> for \<open>NaN\<close> (an invalid
  date). \<open>JSON_parse\<close> gives the parsed history file at the type the code assigns it.
\<close>

record env =
  existsSync :: "string \<Rightarrow> bool"
  readFile :: "string \<Rightarrow> error + buffer"
  copyFile :: "string \<Rightarrow> string \<Rightarrow> error option"
  writeFile :: "string \<Rightarrow> buffer \<Rightarrow> error option"
  sharp_jpeg :: "buffer \<Rightarrow> number \<Rightarrow> error + buffer"
  toString_base64 :: "buffer \<Rightarrow> string"
  path_join :: "string \<Rightarrow> string \<Rightarrow> string"
  Date_now :: "string \<Rightarrow> nat \<Rightarrow> nat \<Rightarrow> nat"
  settle_order :: "string \<Rightarrow> nat \<Rightarrow> nat list"
  unlinkSync :: "string \<Rightarrow> error option"
  readFileSync :: "string \<Rightarrow> error + string"
  JSON_parse :: "string \<Rightarrow> error + HistoryEntry list"
  Date_getTime :: "string \<Rightarrow> int option"
  Date_toISOString :: string

text \<open>What the run writes to storage.\<close>

datatype fs_op = CopyFile string string | WriteFile string buffer


section \<open>Attachment materialisation\<close>

text \<open>A materialised attachment, \<open>ReportData["tests"][0]["attachments"][0]\<close>.\<close>

record materialized =
  att_name :: string
  att_contentType :: string
  att_path :: string

text \<open>\<open>attachment.path && fs.existsSync(attachment.path)\<close>, with the path it found.\<close>

definition existing_path :: "env \<Rightarrow> attachment \<Rightarrow> string option" where
  "existing_path e a =
     (case path a of
        None \<Rightarrow> None
      | Some p \<Rightarrow> if p \<noteq> [] \<and> existsSync e p then Some p else None)"

text \<open>
  The buffer that \<open>getEmbeddedAssetData\<close> loads: the file at the path when it exists, else
  the body, else \<open>null\<close>. Reading the file can reject.
\<close>

definition read_buffer :: "env \<Rightarrow> attachment \<Rightarrow> error + buffer option" where
  "read_buffer e a =
     (case existing_path e a of
        Some p \<Rightarrow> (case readFile e p of Inl err \<Rightarrow> Inl err | Inr b \<Rightarrow> Inr (Some b))
      | None \<Rightarrow> Inr (body a))"

text \<open>\<open>getEmbeddedAssetData\<close>: the pair \<open>(dataUrl, contentType)\<close>, or the rejection.\<close>

definition getEmbeddedAssetData :: "env \<Rightarrow> Options \<Rightarrow> attachment \<Rightarrow> error + (string \<times> string)" where
  "getEmbeddedAssetData e opts a =
     (let finalContentType = or_string (contentType a) ''application/octet-stream''
      in case read_buffer e a of
           Inl err \<Rightarrow> Inl err
         | Inr None \<Rightarrow> Inr ([], finalContentType)
         | Inr (Some buf) \<Rightarrow>
             let isImage = (take 6 finalContentType = ''image/'');
                 (buf', finalContentType') =
                   (if isImage \<and> compressImages opts \<and> finalContentType \<noteq> ''image/gif''
                    then (case sharp_jpeg e buf (imageQuality opts) of
                            Inr compressed \<Rightarrow> (compressed, ''image/jpeg'')
                          | Inl err \<Rightarrow> (buf, finalContentType))
                    else (buf, finalContentType))
             in Inr (''data:'' @ finalContentType' @ '';base64,'' @ toString_base64 e buf',
                     finalContentType'))"

text \<open>A non-negative integer in a template literal: its decimal digits.\<close>

fun string_of_nat :: "nat \<Rightarrow> string" where
  "string_of_nat n =
     (if n < 10 then [char_of (48 + n)]
      else string_of_nat (n div 10) @ [char_of (48 + n mod 10)])"

declare string_of_nat.simps [simp del]

text \<open>\<open>s.split(c)\<close> for a one-character separator, and \<open>xs[i]\<close> (\<open>undefined\<close> out of range).\<close>

fun split_on :: "char \<Rightarrow> string \<Rightarrow> string list" where
  "split_on c [] = [[]]"
| "split_on c (x # xs) =
     (if x = c then [] # split_on c xs
      else (case split_on c xs of [] \<Rightarrow> [[x]] | w # ws \<Rightarrow> (x # w) # ws))"

definition at_index :: "'a list \<Rightarrow> nat \<Rightarrow> 'a option" where
  "at_index xs i = (if i < length xs then Some (xs ! i) else None)"

text \<open>The name under which \<open>processAttachment\<close> stores an attachment.\<close>

definition attachmentFileName :: "string \<Rightarrow> attachment \<Rightarrow> nat \<Rightarrow> nat \<Rightarrow> string" where
  "attachmentFileName testId a retry_no now =
     testId @ ''-'' @ name a @ ''-'' @ string_of_nat retry_no @ ''-'' @ string_of_nat now
     @ ''.'' @ or_string (chain (contentType a) (\<lambda>ct. at_index (split_on CHR ''/'' ct) 1)) ''bin''"

text \<open>
  \<open>processAttachment\<close>. \<open>dir\<close> is \<open>this.attachmentsDir\<close> and \<open>now\<close> the value read from
  \<open>Date.now()\<close>. The result is the materialised attachment and what was written, or the
  rejection.
\<close>

definition processAttachment ::
  "env \<Rightarrow> Options \<Rightarrow> string \<Rightarrow> nat \<Rightarrow> attachment \<Rightarrow> string \<Rightarrow> nat \<Rightarrow> error + (materialized \<times> fs_op list)" where
  "processAttachment e opts dir now a testId retry_no =
     (if embedAssets opts then
        (case getEmbeddedAssetData e opts a of
           Inl err \<Rightarrow> Inl err
         | Inr (dataUrl, ct) \<Rightarrow>
             Inr (\<lparr>att_name = name a, att_contentType = ct, att_path = dataUrl\<rparr>, []))
      else
        (let destinationPath = path_join e dir (attachmentFileName testId a retry_no now);
             relativePath = path_join e ''attachments'' (attachmentFileName testId a retry_no now);
             result = \<lparr>att_name = name a,
                       att_contentType = or_string (contentType a) ''application/octet-stream'',
                       att_path = relativePath\<rparr>
         in case existing_path e a of
              Some p \<Rightarrow>
                (case copyFile e p destinationPath of
                   Some err \<Rightarrow> Inl err
                 | None \<Rightarrow> Inr (result, [CopyFile p destinationPath]))
            | None \<Rightarrow>
                (case body a of
                   Some b \<Rightarrow>
                     (case writeFile e destinationPath b of
                        Some err \<Rightarrow> Inl err
                      | None \<Rightarrow> Inr (result, [WriteFile destinationPath b]))
                 | None \<Rightarrow> Inr (result, []))))"


section \<open>Promise.all\<close>

text \<open>
  \<open>Promise.all\<close> keeps an array with one slot per promise. When the promise at index \<open>i\<close>
  fulfils, its value is stored in slot \<open>i\<close>; the first rejection rejects the whole; when
  every slot is filled the array is the result. \<open>settle\<close> runs through the promises in
  the order in which they settle. A promise that never settles leaves the combined
  promise pending (\<open>Unsettled\<close>).
\<close>

fun settle :: "(error + 'a) list \<Rightarrow> nat list \<Rightarrow> 'a option list \<Rightarrow> error + 'a option list" where
  "settle promises [] vals = Inr vals"
| "settle promises (i # order) vals =
     (if i < length promises then
        (case promises ! i of
           Inl reason \<Rightarrow> Inl reason
         | Inr v \<Rightarrow> settle promises order (vals[i := Some v]))
      else settle promises order vals)"

definition Promise_all :: "nat list \<Rightarrow> (error + 'a) list \<Rightarrow> error + 'a list" where
  "Promise_all order promises =
     (case settle promises order (replicate (length promises) None) of
        Inl reason \<Rightarrow> Inl reason
      | Inr vals \<Rightarrow> (case those vals of None \<Rightarrow> Inl Unsettled | Some vs \<Rightarrow> Inr vs))"


section \<open>Consolidation of one run\<close>

record counts =
  total :: nat
  passed :: nat
  failed :: nat
  skipped :: nat
  flaky :: nat

text \<open>One consolidated test, \<open>ReportData["tests"][0]\<close> (see the note at \<open>TestResult\<close>).\<close>

record test_record =
  t_title :: string
  t_projectName :: string
  t_status :: status
  t_duration :: number
  t_retries :: int
  t_attachments :: "materialized list"

text \<open>What the loop of \<open>onEnd\<close> has built so far, and what it has written.\<close>

record run_state =
  run_counts :: counts
  allTests :: "test_record list"
  written :: "fs_op list"

text \<open>\<open>_resetState\<close>, for the fields above.\<close>

definition resetState :: run_state where
  "resetState =
     \<lparr> run_counts = \<lparr>total = 0, passed = 0, failed = 0, skipped = 0, flaky = 0\<rparr>,
       allTests = [], written = [] \<rparr>"

text \<open>
  \<open>onTestEnd\<close>. \<open>testMap\<close> is a JavaScript \<open>Map\<close>, which iterates in insertion order: an
  association list with one pair per key.
\<close>

type_synonym testMap = "(string \<times> (TestCase \<times> TestResult list)) list"

definition onTestEnd :: "testMap \<Rightarrow> TestCase \<Rightarrow> TestResult \<Rightarrow> testMap" where
  "onTestEnd tm test result =
     (case map_of tm (test_id test) of
        None \<Rightarrow> tm @ [(test_id test, (test, [result]))]
      | Some entry \<Rightarrow>
          map (\<lambda>(k, (t, results)). if k = test_id test then (k, (t, results @ [result]))
                                   else (k, (t, results))) tm)"

text \<open>The promises created by \<open>res.attachments.map(...)\<close> for the \<open>i\<close>-th attempt.\<close>

definition attachment_promises ::
  "env \<Rightarrow> Options \<Rightarrow> string \<Rightarrow> string \<Rightarrow> nat \<Rightarrow> TestResult \<Rightarrow> (error + (materialized \<times> fs_op list)) list" where
  "attachment_promises e opts dir testId i res =
     map (\<lambda>(j, a). processAttachment e opts dir (Date_now e testId i j) a testId (retry res))
       (enumerate 0 (attachments res))"

text \<open>The loop \<open>for (const res of results)\<close> that fills \<open>allAttachments\<close>.\<close>

fun collectAttachments ::
  "env \<Rightarrow> Options \<Rightarrow> string \<Rightarrow> string \<Rightarrow> nat \<Rightarrow> (materialized \<times> fs_op list) list \<Rightarrow> TestResult list
     \<Rightarrow> error + (materialized \<times> fs_op list) list" where
  "collectAttachments e opts dir testId i allAttachments [] = Inr allAttachments"
| "collectAttachments e opts dir testId i allAttachments (res # rest) =
     (case Promise_all (settle_order e testId i) (attachment_promises e opts dir testId i res) of
        Inl err \<Rightarrow> Inl err
      | Inr processedAttachments \<Rightarrow>
          collectAttachments e opts dir testId (Suc i) (allAttachments @ processedAttachments) rest)"

text \<open>The verdict of lines 330 to 335.\<close>

definition reportingStatus :: "TestCase \<Rightarrow> TestResult \<Rightarrow> status" where
  "reportingStatus test finalResult =
     (let isExpectedToFail = (expectedStatus test = Failed)
      in if isExpectedToFail \<and> status finalResult = Passed then Failed else status finalResult)"

text \<open>The counter updates of lines 337 to 350.\<close>

definition count_test :: "counts \<Rightarrow> status \<Rightarrow> nat \<Rightarrow> counts" where
  "count_test c rs n_results =
     (let c1 = c\<lparr>total := total c + 1\<rparr>;
          c2 = (if rs = Passed then c1\<lparr>passed := passed c1 + 1\<rparr>
                else if rs = Failed \<or> rs = TimedOut \<or> rs = Interrupted
                  then c1\<lparr>failed := failed c1 + 1\<rparr>
                else if rs = Skipped then c1\<lparr>skipped := skipped c1 + 1\<rparr>
                else c1)
      in if n_results > 1 then c2\<lparr>flaky := flaky c2 + 1\<rparr> else c2)"

text \<open>
  One iteration of \<open>for (const entry of this.testMap.values())\<close>. Reading \<open>.status\<close> of
  \<open>results[results.length - 1]\<close> throws a \<open>TypeError\<close> when \<open>results\<close> is empty.
\<close>

definition processEntry ::
  "env \<Rightarrow> Options \<Rightarrow> string \<Rightarrow> run_state \<Rightarrow> TestCase \<times> TestResult list \<Rightarrow> error + run_state" where
  "processEntry e opts dir st entry =
     (case entry of (test, results) \<Rightarrow>
        if results = [] then Inl TypeError
        else
          (let finalResult = last results;
               rs = reportingStatus test finalResult;
               c = count_test (run_counts st) rs (length results)
           in case collectAttachments e opts dir (test_id test) 0 [] results of
                Inl err \<Rightarrow> Inl err
              | Inr allAttachments \<Rightarrow>
                  Inr (st\<lparr> run_counts := c,
                           allTests := allTests st @
                             [\<lparr> t_title = title test,
                                t_projectName = or_string (project_name test) ''No Project'',
                                t_status = rs,
                                t_duration = duration finalResult,
                                t_retries = int (length results) - 1,
                                t_attachments = map fst allAttachments \<rparr>],
                           written := written st @ concat (map snd allAttachments) \<rparr>)))"

fun processEntries ::
  "env \<Rightarrow> Options \<Rightarrow> string \<Rightarrow> run_state \<Rightarrow> (TestCase \<times> TestResult list) list \<Rightarrow> error + run_state" where
  "processEntries e opts dir st [] = Inr st"
| "processEntries e opts dir st (entry # entries) =
     (case processEntry e opts dir st entry of
        Inl err \<Rightarrow> Inl err
      | Inr st' \<Rightarrow> processEntries e opts dir st' entries)"

text \<open>
  The counter update and the verdict of one entry, as the loop body computes them: used
  to state what the counters are after the whole loop.
\<close>

definition count_entry :: "counts \<Rightarrow> TestCase \<times> TestResult list \<Rightarrow> counts" where
  "count_entry c entry =
     (case entry of (test, results) \<Rightarrow>
        count_test c (reportingStatus test (last results)) (length results))"

definition verdict :: "TestCase \<times> TestResult list \<Rightarrow> status" where
  "verdict entry = (case entry of (test, results) \<Rightarrow> reportingStatus test (last results))"

text \<open>
  A run: \<open>onBegin\<close> resets the state, \<open>onTestEnd\<close> is called once per attempt, and \<open>onEnd\<close>
  consolidates the entries of \<open>testMap\<close>.
\<close>

definition accumulate :: "(TestCase \<times> TestResult) list \<Rightarrow> testMap" where
  "accumulate events = foldl (\<lambda>tm (test, result). onTestEnd tm test result) [] events"

definition consolidate_run ::
  "env \<Rightarrow> Options \<Rightarrow> string \<Rightarrow> (TestCase \<times> TestResult) list \<Rightarrow> error + run_state" where
  "consolidate_run e opts dir events =
     processEntries e opts dir resetState (map snd (accumulate events))"


section \<open>The history ledger\<close>

text \<open>The block of \<open>onBegin\<close> that resets and loads \<open>historyData\<close> (lines 199 to 212).\<close>

definition try_catch :: "error + 'a \<Rightarrow> (error \<Rightarrow> error + 'a) \<Rightarrow> error + 'a" where
  "try_catch block handler = (case block of Inl err \<Rightarrow> handler err | Inr v \<Rightarrow> Inr v)"

definition loadHistory :: "env \<Rightarrow> Options \<Rightarrow> string \<Rightarrow> HistoryEntry list \<Rightarrow> error + HistoryEntry list" where
  "loadHistory e opts historyFilePath historyData =
     (case (if resetHistory opts \<and> existsSync e historyFilePath
            then (case unlinkSync e historyFilePath of
                    Some err \<Rightarrow> Inl err
                  | None \<Rightarrow> Inr False)
            else Inr (existsSync e historyFilePath)) of
        Inl err \<Rightarrow> Inl err
      | Inr still_exists \<Rightarrow>
          if still_exists then
            try_catch
              (case readFileSync e historyFilePath of
                 Inl err \<Rightarrow> Inl err
               | Inr content \<Rightarrow> JSON_parse e content)
              (\<lambda>err. Inr [])
          else Inr historyData)"

text \<open>\<open>Array.prototype.findIndex\<close>; \<open>None\<close> stands for \<open>-1\<close>.\<close>

fun findIndex :: "('a \<Rightarrow> bool) \<Rightarrow> 'a list \<Rightarrow> nat option" where
  "findIndex P [] = None"
| "findIndex P (x # xs) = (if P x then Some 0 else map_option Suc (findIndex P xs))"

text \<open>The upsert of lines 405 to 412.\<close>

definition upsert :: "HistoryEntry \<Rightarrow> HistoryEntry list \<Rightarrow> HistoryEntry list" where
  "upsert currentRunSummary historyData =
     (case findIndex (\<lambda>h. h_buildNo h = h_buildNo currentRunSummary) historyData of
        Some existingRunIndex \<Rightarrow> historyData[existingRunIndex := currentRunSummary]
      | None \<Rightarrow> historyData @ [currentRunSummary])"

text \<open>
  The comparator passed to \<open>sort\<close>: the difference of the two times. When a timestamp is
  not a date the difference is \<open>NaN\<close>, which \<open>sort\<close> treats as \<open>0\<close>.
\<close>

definition compareTimestamps :: "env \<Rightarrow> HistoryEntry \<Rightarrow> HistoryEntry \<Rightarrow> int" where
  "compareTimestamps e a b =
     (case (Date_getTime e (h_timestamp a), Date_getTime e (h_timestamp b)) of
        (Some ta, Some tb) \<Rightarrow> ta - tb
      | _ \<Rightarrow> 0)"

text \<open>
  \<open>Array.prototype.sort\<close> is stable, and for a consistent comparator its result is the
  list ordered by the comparator whichever algorithm the engine runs; the model is the
  stable insertion sort. With unparsable timestamps the comparator is not consistent and
  the order is implementation-defined: nothing is claimed for such ledgers.
\<close>

fun insert_by :: "('a \<Rightarrow> 'a \<Rightarrow> int) \<Rightarrow> 'a \<Rightarrow> 'a list \<Rightarrow> 'a list" where
  "insert_by cmp x [] = [x]"
| "insert_by cmp x (y # ys) = (if cmp x y \<le> 0 then x # y # ys else y # insert_by cmp x ys)"

definition Array_sort :: "('a \<Rightarrow> 'a \<Rightarrow> int) \<Rightarrow> 'a list \<Rightarrow> 'a list" where
  "Array_sort cmp xs = foldr (insert_by cmp) xs []"

text \<open>
  \<open>while (historyData.length > historyTrend) historyData.shift()\<close>. \<open>shift\<close> on an empty
  array removes nothing, so the loop need not end: \<open>None\<close> means that it runs forever.
\<close>

partial_function (option) shift_loop :: "number \<Rightarrow> 'a list \<Rightarrow> 'a list option" where
  "shift_loop limit historyData =
     (if num_less limit (Fin (real (length historyData)))
      then shift_loop limit (case historyData of [] \<Rightarrow> [] | oldest # rest \<Rightarrow> rest)
      else Some historyData)"

text \<open>Sort then trim (lines 414 to 423).\<close>

definition normalize :: "env \<Rightarrow> Options \<Rightarrow> HistoryEntry list \<Rightarrow> HistoryEntry list option" where
  "normalize e opts historyData =
     shift_loop (historyTrend opts) (Array_sort (compareTimestamps e) historyData)"

text \<open>The history update of \<open>onEnd\<close> (lines 398 to 423).\<close>

definition updateHistory :: "env \<Rightarrow> Options \<Rightarrow> counts \<Rightarrow> HistoryEntry list \<Rightarrow> HistoryEntry list option" where
  "updateHistory e opts c historyData =
     (let currentRunSummary =
            \<lparr> h_buildNo = or_string (Some (buildNo opts)) ''N/A'',
              h_total = total c,
              h_passed = passed c,
              h_timestamp = Date_toISOString e \<rparr>
      in normalize e opts (upsert currentRunSummary historyData))"

text \<open>The entries of a ledger that carry a given build identifier.\<close>

definition entries_for :: "string \<Rightarrow> HistoryEntry list \<Rightarrow> HistoryEntry list" where
  "entries_for b ledger = filter (\<lambda>h. h_buildNo h = b) ledger"




section \<open>Example inputs\<close>

text \<open>An options object that supplies nothing.\<close>

definition opts0 :: MyCustomReporterOptions where
  "opts0 = \<lparr> opt_outputFolder = None, opt_reportFileName = None, opt_inlineCss = None,
     opt_embedAssets = None, opt_applicationName = None, opt_applicationLogoPath = None,
     opt_reportTitle = None, opt_qaLead = None, opt_executionType = None, opt_sprint = None,
     opt_release = None, opt_buildNo = None, opt_compressImages = None,
     opt_imageQuality = None, opt_resetHistory = None, opt_historyTrend = None \<rparr>"


text \<open>An environment in which no attachment file exists and nothing fails to be written.\<close>

definition env0 :: env where
  "env0 =
     \<lparr> existsSync = (\<lambda>p. False),
       readFile = (\<lambda>p. Inl (FsError p)),
       copyFile = (\<lambda>src dst. None),
       writeFile = (\<lambda>dst b. None),
       sharp_jpeg = (\<lambda>b q. Inr (take 1 b)),
       toString_base64 = (\<lambda>b. replicate (length b) CHR ''A''),
       path_join = (\<lambda>a b. a @ ''/'' @ b),
       Date_now = (\<lambda>tid i j. 1700000000000 + i),
       settle_order = (\<lambda>tid i. [3, 2, 1, 0]),
       unlinkSync = (\<lambda>p. None),
       readFileSync = (\<lambda>p. Inl (FsError p)),
       JSON_parse = (\<lambda>s. Inl SyntaxError),
       Date_getTime = (\<lambda>s. None),
       Date_toISOString = ''2025-01-05T10:00:00.000Z'' \<rparr>"

definition dir0 :: string where
  "dir0 = ''/work/playwright-custom-report/attachments''"

definition test_login :: TestCase where
  "test_login =
     \<lparr>test_id = ''t-login'', title = ''Login'', expectedStatus = Passed,
      project_name = Some ''chromium''\<rparr>"

definition test_knownbug :: TestCase where
  "test_knownbug =
     \<lparr>test_id = ''t-knownbug'', title = ''KnownBug'', expectedStatus = Failed,
      project_name = None\<rparr>"

definition test_slow :: TestCase where
  "test_slow =
     \<lparr>test_id = ''t-slow'', title = ''Slow'', expectedStatus = Passed,
      project_name = Some ''chromium''\<rparr>"

definition attempt :: "status \<Rightarrow> nat \<Rightarrow> TestResult" where
  "attempt s r = \<lparr>status = s, duration = Fin 10, attachments = [], retry = r\<rparr>"

definition events0 :: "(TestCase \<times> TestResult) list" where
  "events0 =
     [(test_login, attempt Failed 0), (test_slow, attempt TimedOut 0),
      (test_knownbug, attempt Passed 0), (test_login, attempt Passed 1)]"

definition inline_opts :: Options where
  "inline_opts = MyCustomReporter_constructor (Some (opts0\<lparr>opt_embedAssets := Some True\<rparr>))"

definition plain_attachment :: "string \<Rightarrow> buffer \<Rightarrow> attachment" where
  "plain_attachment n b = \<lparr>name = n, contentType = Some ''text/plain'', path = None, body = Some b\<rparr>"

definition attempts_xy :: "TestResult list" where
  "attempts_xy =
     [\<lparr>status = Failed, duration = Fin 10,
       attachments = [plain_attachment ''x'' [1], plain_attachment ''y'' [1, 2]], retry = 0\<rparr>,
      \<lparr>status = Passed, duration = Fin 12,
       attachments = [plain_attachment ''x'' [1, 2, 3], plain_attachment ''y'' [1, 2, 3, 4]], retry = 1\<rparr>]"

text \<open>A ledger whose file holds two entries for the build \<open>B1\<close>, and two later runs of \<open>B1\<close>.\<close>

definition ledger_dup :: "HistoryEntry list" where
  "ledger_dup =
     [\<lparr>h_buildNo = ''B1'', h_total = 10, h_passed = 9, h_timestamp = ''2025-01-01T10:00:00.000Z''\<rparr>,
      \<lparr>h_buildNo = ''B1'', h_total = 10, h_passed = 8, h_timestamp = ''2025-01-02T10:00:00.000Z''\<rparr>]"

definition run_a :: HistoryEntry where
  "run_a = \<lparr>h_buildNo = ''B1'', h_total = 12, h_passed = 11, h_timestamp = ''2025-01-03T10:00:00.000Z''\<rparr>"

definition run_b :: HistoryEntry where
  "run_b = \<lparr>h_buildNo = ''B1'', h_total = 12, h_passed = 12, h_timestamp = ''2025-01-04T10:00:00.000Z''\<rparr>"

text \<open>A ledger with one entry per build.\<close>

definition ledger_ok :: "HistoryEntry list" where
  "ledger_ok =
     [\<lparr>h_buildNo = ''B0'', h_total = 10, h_passed = 9, h_timestamp = ''2025-01-01T10:00:00.000Z''\<rparr>,
      \<lparr>h_buildNo = ''B1'', h_total = 10, h_passed = 8, h_timestamp = ''2025-01-02T10:00:00.000Z''\<rparr>]"






text \<open>
  An attachment whose path names a directory: it exists, but it cannot be read or copied
  as a file.
\<close>

definition trace_dir :: attachment where
  "trace_dir =
     \<lparr>name = ''trace'', contentType = Some ''application/zip'',
      path = Some ''/work/test-results/trace'', body = None\<rparr>"

definition env_dir :: env where
  "env_dir =
     env0\<lparr>existsSync := (\<lambda>p. p = ''/work/test-results/trace''),
          readFile := (\<lambda>p. Inl (FsError ''EISDIR'')),
          copyFile := (\<lambda>src dst. Some (FsError ''EISDIR''))\<rparr>"

text \<open>An attachment whose file is gone and which has no body.\<close>

definition lost_video :: attachment where
  "lost_video =
     \<lparr>name = ''video'', contentType = Some ''video/webm'',
      path = Some ''/work/test-results/video.webm'', body = None\<rparr>"

definition env_badjson :: env where
  "env_badjson =
     env0\<lparr>existsSync := (\<lambda>p. p = ''/work/playwright-custom-report/history.json''),
          readFileSync := (\<lambda>p. Inr ''[{ truncated'')\<rparr>"

text \<open>A screenshot captured in memory, and an environment in which re-encoding fails.\<close>

definition screenshot :: attachment where
  "screenshot =
     \<lparr>name = ''screenshot'', contentType = Some ''image/png'', path = None,
      body = Some [1, 2, 3]\<rparr>"

definition env_nosharp :: env where
  "env_nosharp = env0\<lparr>sharp_jpeg := (\<lambda>b q. Inl SharpError)\<rparr>"


section \<open>Properties\<close>

subsection \<open>Option defaults\<close>

lemma imageQuality_cases:
  "imageQuality (MyCustomReporter_constructor options) =
     Math_max (Fin 1) (Math_min (Fin 100) (or_number (chain options opt_imageQuality) (Fin 80)))"
  by (simp add: MyCustomReporter_constructor_def defaulted_def Let_def)

lemma historyTrend_constructor:
  "historyTrend (MyCustomReporter_constructor options) =
     or_number (chain options opt_historyTrend) (Fin 4)"
  by (simp add: MyCustomReporter_constructor_def defaulted_def Let_def)

lemma clamp_range:
  "x \<noteq> NaN \<Longrightarrow> \<exists>q. Math_max (Fin 1) (Math_min (Fin 100) x) = Fin q \<and> 1 \<le> q \<and> q \<le> 100"
  by (cases x) (auto simp: Math_max_def Math_min_def)

lemma or_number_not_NaN: "d \<noteq> NaN \<Longrightarrow> or_number a d \<noteq> NaN"
  by (auto simp: or_number_def split: option.splits)

text \<open>
  Claim C10. Whatever options object the constructor receives, the normalised
  \<open>imageQuality\<close> is a finite number between 1 and 100. A falsy supplied value is replaced
  by the default instead of being clamped: an absent, zero or \<open>NaN\<close> \<open>imageQuality\<close> becomes
  80, while a negative one becomes 1 and one above 100 becomes 100; an absent, zero or
  \<open>NaN\<close> \<open>historyTrend\<close> becomes 4.
\<close>

theorem constructor_imageQuality_historyTrend:
  "(\<exists>q. imageQuality (MyCustomReporter_constructor options) = Fin q \<and> 1 \<le> q \<and> q \<le> 100)
   \<and> (chain options opt_imageQuality = None \<or> chain options opt_imageQuality = Some (Fin 0)
        \<or> chain options opt_imageQuality = Some NaN
        \<longrightarrow> imageQuality (MyCustomReporter_constructor options) = Fin 80)
   \<and> (\<forall>x. chain options opt_imageQuality = Some (Fin x) \<and> x < 0
        \<longrightarrow> imageQuality (MyCustomReporter_constructor options) = Fin 1)
   \<and> (\<forall>x. chain options opt_imageQuality = Some (Fin x) \<and> 100 < x
        \<longrightarrow> imageQuality (MyCustomReporter_constructor options) = Fin 100)
   \<and> (chain options opt_historyTrend = None \<or> chain options opt_historyTrend = Some (Fin 0)
        \<or> chain options opt_historyTrend = Some NaN
        \<longrightarrow> historyTrend (MyCustomReporter_constructor options) = Fin 4)"
proof (intro conjI allI impI)
  show "\<exists>q. imageQuality (MyCustomReporter_constructor options) = Fin q \<and> 1 \<le> q \<and> q \<le> 100"
    unfolding imageQuality_cases by (rule clamp_range) (simp add: or_number_not_NaN)
qed (auto simp: imageQuality_cases historyTrend_constructor or_number_def Math_max_def Math_min_def)

theorem constructor_imageQuality_historyTrend_witness:
  "imageQuality (MyCustomReporter_constructor
      (Some (opts0\<lparr>opt_imageQuality := Some (Fin 0), opt_historyTrend := Some (Fin 0)\<rparr>))) = Fin 80
   \<and> historyTrend (MyCustomReporter_constructor
      (Some (opts0\<lparr>opt_imageQuality := Some (Fin 0), opt_historyTrend := Some (Fin 0)\<rparr>))) = Fin 4
   \<and> imageQuality (MyCustomReporter_constructor None) = Fin 80
   \<and> historyTrend (MyCustomReporter_constructor None) = Fin 4
   \<and> imageQuality (MyCustomReporter_constructor
      (Some (opts0\<lparr>opt_imageQuality := Some (Fin (- 5))\<rparr>))) = Fin 1
   \<and> imageQuality (MyCustomReporter_constructor
      (Some (opts0\<lparr>opt_imageQuality := Some (Fin 250)\<rparr>))) = Fin 100"
  using constructor_imageQuality_historyTrend
          [of "Some (opts0\<lparr>opt_imageQuality := Some (Fin 0), opt_historyTrend := Some (Fin 0)\<rparr>)"]
        constructor_imageQuality_historyTrend [of None]
        constructor_imageQuality_historyTrend
          [of "Some (opts0\<lparr>opt_imageQuality := Some (Fin (- 5))\<rparr>)"]
        constructor_imageQuality_historyTrend
          [of "Some (opts0\<lparr>opt_imageQuality := Some (Fin 250)\<rparr>)"]
  by (simp add: chain_def opts0_def)


subsection \<open>Consolidation: verdict, retries and counters\<close>

lemma processEntry_Inr:
  assumes "processEntry e opts dir st (test, results) = Inr st'"
  shows "results \<noteq> []"
    and "run_counts st' =
           count_test (run_counts st) (reportingStatus test (last results)) (length results)"
    and "\<exists>allAttachments.
           collectAttachments e opts dir (test_id test) 0 [] results = Inr allAttachments \<and>
           allTests st' = allTests st @
             [\<lparr> t_title = title test,
                t_projectName = or_string (project_name test) ''No Project'',
                t_status = reportingStatus test (last results),
                t_duration = duration (last results),
                t_retries = int (length results) - 1,
                t_attachments = map fst allAttachments \<rparr>] \<and>
           written st' = written st @ concat (map snd allAttachments)"
  using assms
  by (auto simp: processEntry_def Let_def split: if_splits sum.splits)

lemma processEntries_counts:
  "processEntries e opts dir st entries = Inr st' \<Longrightarrow>
     run_counts st' = foldl count_entry (run_counts st) entries"
proof (induction entries arbitrary: st)
  case Nil
  then show ?case by simp
next
  case (Cons entry entries)
  obtain test results where entry: "entry = (test, results)" by (cases entry)
  from Cons.prems obtain st1 where
    step: "processEntry e opts dir st entry = Inr st1" and
    rest: "processEntries e opts dir st1 entries = Inr st'"
    by (auto split: sum.splits)
  have "run_counts st1 = count_entry (run_counts st) entry"
    using processEntry_Inr(2) [of e opts dir st test results st1] step
    by (simp add: entry count_entry_def)
  with Cons.IH [OF rest] show ?case by simp
qed

lemma processEntries_nonempty:
  "processEntries e opts dir st entries = Inr st' \<Longrightarrow> (test, results) \<in> set entries \<Longrightarrow> results \<noteq> []"
proof (induction entries arbitrary: st)
  case Nil
  then show ?case by simp
next
  case (Cons entry entries)
  from Cons.prems(1) obtain st1 where
    step: "processEntry e opts dir st entry = Inr st1" and
    rest: "processEntries e opts dir st1 entries = Inr st'"
    by (auto split: sum.splits)
  show ?case
  proof (cases "entry = (test, results)")
    case True
    with step show ?thesis using processEntry_Inr(1) by blast
  next
    case False
    with Cons.prems(2) have "(test, results) \<in> set entries" by simp
    from Cons.IH [OF rest this] show ?thesis .
  qed
qed

lemma total_count_test: "total (count_test c rs n) = total c + 1"
  by (simp add: count_test_def Let_def)

lemma passed_count_test: "passed (count_test c rs n) = passed c + (if rs = Passed then 1 else 0)"
  by (simp add: count_test_def Let_def)

lemma failed_count_test:
  "failed (count_test c rs n) =
     failed c + (if rs = Failed \<or> rs = TimedOut \<or> rs = Interrupted then 1 else 0)"
  by (simp add: count_test_def Let_def)

lemma skipped_count_test: "skipped (count_test c rs n) = skipped c + (if rs = Skipped then 1 else 0)"
  by (cases rs) (simp_all add: count_test_def Let_def)

lemma total_foldl: "total (foldl count_entry c entries) = total c + length entries"
  by (induction entries arbitrary: c) (auto simp: count_entry_def total_count_test)

lemma passed_foldl:
  "passed (foldl count_entry c entries) =
     passed c + length (filter (\<lambda>entry. verdict entry = Passed) entries)"
  by (induction entries arbitrary: c) (auto simp: count_entry_def verdict_def passed_count_test)

lemma failed_foldl:
  "failed (foldl count_entry c entries) =
     failed c + length (filter (\<lambda>entry. verdict entry = Failed \<or> verdict entry = TimedOut
                                  \<or> verdict entry = Interrupted) entries)"
  by (induction entries arbitrary: c) (auto simp: count_entry_def verdict_def failed_count_test)

lemma skipped_foldl:
  "skipped (foldl count_entry c entries) =
     skipped c + length (filter (\<lambda>entry. verdict entry = Skipped) entries)"
  by (induction entries arbitrary: c) (auto simp: count_entry_def verdict_def skipped_count_test)

lemma partition_foldl:
  "total c = passed c + failed c + skipped c \<Longrightarrow>
   total (foldl count_entry c entries) =
     passed (foldl count_entry c entries) + failed (foldl count_entry c entries)
       + skipped (foldl count_entry c entries)"
proof (induction entries arbitrary: c)
  case Nil
  then show ?case by simp
next
  case (Cons entry entries)
  obtain test results where entry: "entry = (test, results)" by (cases entry)
  have "total (count_entry c entry) =
          passed (count_entry c entry) + failed (count_entry c entry) + skipped (count_entry c entry)"
    using Cons.prems
    by (cases "reportingStatus test (last results)")
       (simp_all add: entry count_entry_def total_count_test passed_count_test
          failed_count_test skipped_count_test)
  from Cons.IH [OF this] show ?case by simp
qed

lemma keys_onTestEnd:
  "map fst (onTestEnd tm test result) =
     (if test_id test \<in> set (map fst tm) then map fst tm else map fst tm @ [test_id test])"
proof (cases "map_of tm (test_id test)")
  case None
  then have "test_id test \<notin> set (map fst tm)"
    by (simp add: map_of_eq_None_iff)
  with None show ?thesis by (simp add: onTestEnd_def)
next
  case (Some entry)
  then have "test_id test \<in> set (map fst tm)"
    by (metis map_of_eq_None_iff option.distinct(1) set_map)
  moreover have "map fst (map (\<lambda>(k, (t, results)).
        if k = test_id test then (k, (t, results @ [result])) else (k, (t, results))) tm) = map fst tm"
    by (induction tm) auto
  ultimately show ?thesis using Some by (simp add: onTestEnd_def)
qed

lemma keys_foldl_onTestEnd:
  "distinct (map fst tm) \<Longrightarrow>
     distinct (map fst (foldl (\<lambda>tm (test, result). onTestEnd tm test result) tm events)) \<and>
     set (map fst (foldl (\<lambda>tm (test, result). onTestEnd tm test result) tm events)) =
       set (map fst tm) \<union> (test_id \<circ> fst) ` set events"
proof (induction events arbitrary: tm)
  case Nil
  then show ?case by simp
next
  case (Cons ev events)
  obtain test result where ev: "ev = (test, result)" by (cases ev)
  have d: "distinct (map fst (onTestEnd tm test result))"
    using Cons.prems by (simp add: keys_onTestEnd)
  have s: "set (map fst (onTestEnd tm test result)) = insert (test_id test) (set (map fst tm))"
    by (auto simp: keys_onTestEnd)
  from Cons.IH [OF d] s show ?case
    by (simp add: ev)
qed

lemma length_accumulate: "length (accumulate events) = card ((test_id \<circ> fst) ` set events)"
proof -
  have "distinct (map fst (accumulate events))"
    and "set (map fst (accumulate events)) = (test_id \<circ> fst) ` set events"
    using keys_foldl_onTestEnd [of "[]" events] by (simp_all add: accumulate_def)
  then show ?thesis
    by (metis distinct_card length_map)
qed

text \<open>
  Claim C2. After a run (any sequence of \<open>onTestEnd\<close> calls, then the loop of \<open>onEnd\<close>
  from reset counters) \<open>total = passed + failed + skipped\<close>, and \<open>total\<close> is the number of
  distinct test identities that reported an attempt. A test whose verdict is \<open>failed\<close>,
  \<open>timedOut\<close> or \<open>interrupted\<close> is counted in \<open>failed\<close>; \<open>passed\<close> and \<open>skipped\<close> count
  the tests with exactly that verdict.
\<close>

theorem counting_invariant:
  assumes "consolidate_run e opts dir events = Inr st"
  shows "total (run_counts st) =
           passed (run_counts st) + failed (run_counts st) + skipped (run_counts st)
       \<and> total (run_counts st) = card ((test_id \<circ> fst) ` set events)
       \<and> failed (run_counts st) =
           length (filter (\<lambda>entry. verdict entry = Failed \<or> verdict entry = TimedOut
                                    \<or> verdict entry = Interrupted) (map snd (accumulate events)))
       \<and> passed (run_counts st) =
           length (filter (\<lambda>entry. verdict entry = Passed) (map snd (accumulate events)))
       \<and> skipped (run_counts st) =
           length (filter (\<lambda>entry. verdict entry = Skipped) (map snd (accumulate events)))"
proof -
  have c: "run_counts st = foldl count_entry (run_counts resetState) (map snd (accumulate events))"
    using assms processEntries_counts by (simp add: consolidate_run_def)
  have zero: "total (run_counts resetState) = 0" "passed (run_counts resetState) = 0"
    "failed (run_counts resetState) = 0" "skipped (run_counts resetState) = 0"
    by (simp_all add: resetState_def)
  have "total (run_counts st) =
          passed (run_counts st) + failed (run_counts st) + skipped (run_counts st)"
    unfolding c by (rule partition_foldl) (simp add: zero)
  moreover have "total (run_counts st) = card ((test_id \<circ> fst) ` set events)"
    unfolding c by (simp add: total_foldl zero length_accumulate)
  ultimately show ?thesis
    unfolding c by (simp add: failed_foldl passed_foldl skipped_foldl zero)
qed

text \<open>
  Claim C1. For a test consolidated from a non-empty attempt list: when \<open>expectedStatus\<close>
  is \<open>failed\<close> and the last attempt passed, the status of the consolidated record is
  \<open>failed\<close>; when \<open>expectedStatus\<close> is \<open>passed\<close>, it is the status of the last attempt,
  unchanged.
\<close>

theorem expectation_inversion:
  assumes "results \<noteq> []"
    and "processEntry e opts dir st (test, results) = Inr st'"
  shows "(expectedStatus test = Failed \<and> status (last results) = Passed
            \<longrightarrow> t_status (last (allTests st')) = Failed)
       \<and> (expectedStatus test = Passed
            \<longrightarrow> t_status (last (allTests st')) = status (last results))"
proof -
  from processEntry_Inr(3) [OF assms(2)]
  have "t_status (last (allTests st')) = reportingStatus test (last results)"
    by auto
  then show ?thesis
    by (simp add: reportingStatus_def)
qed

lemmas run_example_defs =
  processEntry_def Promise_all_def attachment_promises_def attempt_def env0_def
  reportingStatus_def count_test_def resetState_def Let_def

theorem expectation_inversion_witness:
  "(\<exists>st'. processEntry env0 (MyCustomReporter_constructor None) dir0 resetState
            (test_knownbug, [attempt Passed 0]) = Inr st'
          \<and> t_status (last (allTests st')) = Failed)
   \<and> (\<exists>st'. processEntry env0 (MyCustomReporter_constructor None) dir0 resetState
            (test_login, [attempt Failed 0, attempt Passed 1]) = Inr st'
          \<and> t_status (last (allTests st')) = Passed)"
proof -
  obtain s1 where s1: "processEntry env0 (MyCustomReporter_constructor None) dir0 resetState
            (test_knownbug, [attempt Passed 0]) = Inr s1"
    by (simp add: run_example_defs)
  obtain s2 where s2: "processEntry env0 (MyCustomReporter_constructor None) dir0 resetState
            (test_login, [attempt Failed 0, attempt Passed 1]) = Inr s2"
    by (simp add: run_example_defs)
  have "t_status (last (allTests s1)) = Failed"
    using expectation_inversion [OF _ s1] by (simp add: test_knownbug_def attempt_def)
  moreover have "t_status (last (allTests s2)) = Passed"
    using expectation_inversion [OF _ s2] by (simp add: test_login_def attempt_def)
  ultimately show ?thesis using s1 s2 by blast
qed

text \<open>
  Claim C3. For a test with \<open>N \<ge> 1\<close> attempts the consolidated record has
  \<open>retries = N - 1\<close>, and the \<open>flaky\<close> counter of the run grows by one for that test
  exactly when \<open>N > 1\<close>, whatever the statuses of the attempts are.
\<close>

theorem retries_and_flaky:
  assumes "results \<noteq> []"
    and "processEntry e opts dir st (test, results) = Inr st'"
  shows "t_retries (last (allTests st')) = int (length results) - 1
       \<and> flaky (run_counts st') =
           flaky (run_counts st) + (if length results > 1 then 1 else 0)"
proof -
  from processEntry_Inr(3) [OF assms(2)]
  have "t_retries (last (allTests st')) = int (length results) - 1"
    by auto
  moreover have "flaky (run_counts st') =
      flaky (run_counts st) + (if length results > 1 then 1 else 0)"
    unfolding processEntry_Inr(2) [OF assms(2)]
    by (simp add: count_test_def Let_def)
  ultimately show ?thesis by simp
qed

theorem retries_and_flaky_witness:
  "(\<exists>st'. processEntry env0 (MyCustomReporter_constructor None) dir0 resetState
            (test_login, [attempt Failed 0, attempt Passed 1]) = Inr st'
          \<and> t_retries (last (allTests st')) = 1 \<and> flaky (run_counts st') = 1)
   \<and> (\<exists>st'. processEntry env0 (MyCustomReporter_constructor None) dir0 resetState
            (test_slow, [attempt TimedOut 0]) = Inr st'
          \<and> t_retries (last (allTests st')) = 0 \<and> flaky (run_counts st') = 0)"
proof -
  obtain s1 where s1: "processEntry env0 (MyCustomReporter_constructor None) dir0 resetState
            (test_login, [attempt Failed 0, attempt Passed 1]) = Inr s1"
    by (simp add: run_example_defs)
  obtain s2 where s2: "processEntry env0 (MyCustomReporter_constructor None) dir0 resetState
            (test_slow, [attempt TimedOut 0]) = Inr s2"
    by (simp add: run_example_defs)
  have "t_retries (last (allTests s1)) = 1 \<and> flaky (run_counts s1) = 1"
    using retries_and_flaky [OF _ s1] by (simp add: resetState_def)
  moreover have "t_retries (last (allTests s2)) = 0 \<and> flaky (run_counts s2) = 0"
    using retries_and_flaky [OF _ s2] by (simp add: resetState_def)
  ultimately show ?thesis using s1 s2 by blast
qed

lemma accumulate_events0:
  "accumulate events0 =
     [(''t-login'', (test_login, [attempt Failed 0, attempt Passed 1])),
      (''t-slow'', (test_slow, [attempt TimedOut 0])),
      (''t-knownbug'', (test_knownbug, [attempt Passed 0]))]"
  by (simp add: accumulate_def events0_def onTestEnd_def test_login_def test_slow_def
      test_knownbug_def)

theorem counting_invariant_witness:
  "\<exists>st. consolidate_run env0 (MyCustomReporter_constructor None) dir0 events0 = Inr st
      \<and> total (run_counts st) = 3 \<and> passed (run_counts st) = 1
      \<and> failed (run_counts st) = 2 \<and> skipped (run_counts st) = 0"
proof -
  obtain st where st: "consolidate_run env0 (MyCustomReporter_constructor None) dir0 events0 = Inr st"
    by (simp add: consolidate_run_def accumulate_events0 run_example_defs)
  have ids: "(test_id \<circ> fst) ` set events0 = {''t-login'', ''t-slow'', ''t-knownbug''}"
    by (auto simp: events0_def test_login_def test_slow_def test_knownbug_def)
  have "total (run_counts st) = 3 \<and> passed (run_counts st) = 1
      \<and> failed (run_counts st) = 2 \<and> skipped (run_counts st) = 0"
    using counting_invariant [OF st]
    by (simp add: ids accumulate_events0 verdict_def reportingStatus_def attempt_def
        test_login_def test_slow_def test_knownbug_def)
  with st show ?thesis by blast
qed


subsection \<open>Promise.all and the order of attachments\<close>

lemma those_Some_iff: "those xs = Some ys \<longleftrightarrow> xs = map Some ys"
  by (induction xs arbitrary: ys) (auto split: option.splits)

lemma settle_Inr_slots:
  "settle promises order vals = Inr vals' \<Longrightarrow> length vals = length promises \<Longrightarrow>
   (\<And>i v. i < length promises \<Longrightarrow> vals ! i = Some v \<Longrightarrow> promises ! i = Inr v) \<Longrightarrow>
   length vals' = length promises \<and>
   (\<forall>i v. i < length promises \<longrightarrow> vals' ! i = Some v \<longrightarrow> promises ! i = Inr v)"
proof (induction order arbitrary: vals)
  case Nil
  then show ?case by simp
next
  case (Cons k order)
  show ?case
  proof (cases "k < length promises")
    case False
    with Cons.prems(1) have "settle promises order vals = Inr vals'" by simp
    from Cons.IH [OF this Cons.prems(2)] Cons.prems(3) show ?thesis by blast
  next
    case True
    with Cons.prems(1) obtain w where w: "promises ! k = Inr w"
      and rest: "settle promises order (vals[k := Some w]) = Inr vals'"
      by (auto split: sum.splits)
    have len: "length (vals[k := Some w]) = length promises"
      using Cons.prems(2) by simp
    have slots: "promises ! i = Inr v"
      if "i < length promises" "(vals[k := Some w]) ! i = Some v" for i v
    proof (cases "i = k")
      case True
      with that Cons.prems(2) w show ?thesis by simp
    next
      case False
      with that Cons.prems(3) show ?thesis by simp
    qed
    from Cons.IH [OF rest len slots] show ?thesis by blast
  qed
qed

lemma Promise_all_Inr:
  assumes "Promise_all order promises = Inr vs"
  shows "promises = map Inr vs"
proof -
  from assms obtain vals where s: "settle promises order (replicate (length promises) None) = Inr vals"
    and t: "those vals = Some vs"
    by (auto simp: Promise_all_def split: sum.splits option.splits)
  from t have vals: "vals = map Some vs" by (simp add: those_Some_iff)
  have "length vals = length promises \<and>
        (\<forall>i v. i < length promises \<longrightarrow> vals ! i = Some v \<longrightarrow> promises ! i = Inr v)"
    by (rule settle_Inr_slots [OF s]) simp_all
  then have len: "length vs = length promises"
    and nth: "\<And>i. i < length promises \<Longrightarrow> promises ! i = Inr (vs ! i)"
    by (simp_all add: vals)
  show ?thesis
    by (rule nth_equalityI) (simp_all add: len nth)
qed

lemma collectAttachments_Inr:
  "collectAttachments e opts dir testId i acc results = Inr collected \<Longrightarrow>
   map Inr collected =
     map Inr acc @ concat (map (\<lambda>(k, res). attachment_promises e opts dir testId k res)
                              (enumerate i results))"
proof (induction results arbitrary: i acc)
  case Nil
  then show ?case by simp
next
  case (Cons res rest)
  from Cons.prems obtain processed where
    p: "Promise_all (settle_order e testId i) (attachment_promises e opts dir testId i res) = Inr processed"
    and r: "collectAttachments e opts dir testId (Suc i) (acc @ processed) rest = Inr collected"
    by (auto split: sum.splits)
  from Promise_all_Inr [OF p] Cons.IH [OF r] show ?case by simp
qed

lemma processAttachment_name:
  assumes "processAttachment e opts dir now a testId r = Inr (m, ops)"
  shows "att_name m = name a"
proof (cases "embedAssets opts")
  case True
  with assms show ?thesis
    by (auto simp: processAttachment_def split: sum.splits prod.splits)
next
  case False
  with assms show ?thesis
    by (auto simp: processAttachment_def Let_def split: option.splits)
qed

lemma attachment_promises_names:
  assumes "attachment_promises e opts dir testId i res = map Inr vs"
  shows "map (\<lambda>v. att_name (fst v)) vs = map name (attachments res)"
proof (rule nth_equalityI)
  have "length (attachment_promises e opts dir testId i res) = length (attachments res)"
    by (simp add: attachment_promises_def)
  with assms show len: "length (map (\<lambda>v. att_name (fst v)) vs) = length (map name (attachments res))"
    by simp
  fix j assume "j < length (map (\<lambda>v. att_name (fst v)) vs)"
  then have j: "j < length vs" "j < length (attachments res)" using len by simp_all
  from assms have "attachment_promises e opts dir testId i res ! j = Inr (vs ! j)"
    using j by simp
  then have "processAttachment e opts dir (Date_now e testId i j) (attachments res ! j) testId (retry res)
      = Inr (fst (vs ! j), snd (vs ! j))"
    using j by (simp add: attachment_promises_def nth_enumerate_eq)
  from processAttachment_name [OF this] j
  show "map (\<lambda>v. att_name (fst v)) vs ! j = map name (attachments res) ! j" by simp
qed

lemma collectAttachments_names:
  "collectAttachments e opts dir testId i acc results = Inr collected \<Longrightarrow>
   map (\<lambda>v. att_name (fst v)) collected =
     map (\<lambda>v. att_name (fst v)) acc @ concat (map (\<lambda>res. map name (attachments res)) results)"
proof (induction results arbitrary: i acc)
  case Nil
  then show ?case by simp
next
  case (Cons res rest)
  from Cons.prems obtain processed where
    p: "Promise_all (settle_order e testId i) (attachment_promises e opts dir testId i res) = Inr processed"
    and r: "collectAttachments e opts dir testId (Suc i) (acc @ processed) rest = Inr collected"
    by (auto split: sum.splits)
  from attachment_promises_names [OF Promise_all_Inr [OF p]] Cons.IH [OF r]
  show ?case by simp
qed

lemma existing_path_settle_order:
  "existing_path (e\<lparr>settle_order := ord\<rparr>) a = existing_path e a"
  by (simp add: existing_path_def cong: option.case_cong)

lemma read_buffer_settle_order:
  "read_buffer (e\<lparr>settle_order := ord\<rparr>) a = read_buffer e a"
  by (simp add: read_buffer_def existing_path_settle_order cong: option.case_cong)

lemma getEmbeddedAssetData_settle_order:
  "getEmbeddedAssetData (e\<lparr>settle_order := ord\<rparr>) opts a = getEmbeddedAssetData e opts a"
  by (simp add: getEmbeddedAssetData_def read_buffer_settle_order
      cong: option.case_cong sum.case_cong if_cong prod.case_cong)

lemma processAttachment_settle_order:
  "processAttachment (e\<lparr>settle_order := ord\<rparr>) opts dir now a testId r =
     processAttachment e opts dir now a testId r"
  by (simp add: processAttachment_def getEmbeddedAssetData_settle_order
      existing_path_settle_order cong: option.case_cong)

lemma attachment_promises_settle_order:
  "attachment_promises (e\<lparr>settle_order := ord\<rparr>) opts dir testId i res =
     attachment_promises e opts dir testId i res"
  by (simp add: attachment_promises_def processAttachment_settle_order)


subsection \<open>The order of consolidated attachments\<close>

lemma collectAttachments_settle_order:
  assumes "collectAttachments e opts dir testId i acc results = Inr c"
    and "collectAttachments (e\<lparr>settle_order := ord\<rparr>) opts dir testId i acc results = Inr c'"
  shows "c' = c"
proof -
  have "map Inr c' = (map Inr c :: (error + materialized \<times> fs_op list) list)"
    unfolding collectAttachments_Inr [OF assms(1)] collectAttachments_Inr [OF assms(2)]
    by (simp add: attachment_promises_settle_order split_def)
  then show ?thesis
    by (simp add: inj_map_eq_map)
qed

text \<open>
  Claim C4. The attachments of a consolidated test are ordered by attempt first and by
  declaration order within the attempt second: their names are the declared names in
  that order, and each one is the materialisation of the declared attachment at its
  position. The result does not depend on the order in which the materialisations
  settle: under any other settle order that lets the consolidation complete, the loop
  body ends in the same state.
\<close>

theorem attachment_order:
  assumes "processEntry e opts dir st (test, results) = Inr st'"
  shows "map att_name (t_attachments (last (allTests st'))) =
           concat (map (\<lambda>res. map name (attachments res)) results)
       \<and> map Inr (t_attachments (last (allTests st'))) =
           map (map_sum id fst)
             (concat (map (\<lambda>(i, res). attachment_promises e opts dir (test_id test) i res)
                        (enumerate 0 results)))
       \<and> (\<forall>ord st''. processEntry (e\<lparr>settle_order := ord\<rparr>) opts dir st (test, results) = Inr st''
            \<longrightarrow> st'' = st')"
proof -
  from processEntry_Inr(3) [OF assms] obtain collected where
    c: "collectAttachments e opts dir (test_id test) 0 [] results = Inr collected"
    and t: "t_attachments (last (allTests st')) = map fst collected"
    by auto
  have names: "map att_name (t_attachments (last (allTests st'))) =
           concat (map (\<lambda>res. map name (attachments res)) results)"
    using collectAttachments_names [OF c] by (simp add: t comp_def)
  have "map (map_sum id fst) (map Inr collected) =
          (map Inr (map fst collected) :: (error + materialized) list)"
    by simp
  then have outcomes: "map Inr (t_attachments (last (allTests st'))) =
           map (map_sum id fst)
             (concat (map (\<lambda>(i, res). attachment_promises e opts dir (test_id test) i res)
                        (enumerate 0 results)))"
    unfolding t collectAttachments_Inr [OF c] by simp
  have "st'' = st'"
    if other: "processEntry (e\<lparr>settle_order := ord\<rparr>) opts dir st (test, results) = Inr st''"
    for ord st''
  proof -
    from processEntry_Inr(3) [OF other] obtain collected' where
      c': "collectAttachments (e\<lparr>settle_order := ord\<rparr>) opts dir (test_id test) 0 [] results
             = Inr collected'"
      by auto
    have same: "collected' = collected"
      by (rule collectAttachments_settle_order [OF c c'])
    from assms other c c' show ?thesis
      by (simp add: processEntry_def Let_def same split: if_splits)
  qed
  with names outcomes show ?thesis by blast
qed

lemma inline_opts_flags: "embedAssets inline_opts" "compressImages inline_opts"
  by (simp_all add: inline_opts_def MyCustomReporter_constructor_def defaulted_def chain_def
      nullish_def opts0_def)

lemma existing_path_plain: "existing_path e (plain_attachment n b) = None"
  by (simp add: existing_path_def plain_attachment_def)

lemma getEmbeddedAssetData_plain:
  "getEmbeddedAssetData e inline_opts (plain_attachment n b) =
     Inr (''data:text/plain;base64,'' @ toString_base64 e b, ''text/plain'')"
  by (simp add: getEmbeddedAssetData_def read_buffer_def existing_path_plain)
     (simp add: plain_attachment_def or_string_def)

lemma processAttachment_plain:
  "processAttachment e inline_opts dir now (plain_attachment n b) testId r =
     Inr (\<lparr>att_name = n, att_contentType = ''text/plain'',
           att_path = ''data:text/plain;base64,'' @ toString_base64 e b\<rparr>, [])"
  by (simp add: processAttachment_def inline_opts_flags getEmbeddedAssetData_plain)
     (simp add: plain_attachment_def)

lemma Promise_all_two:
  "Promise_all [3, 2, Suc 0, 0] [Inr a, Inr b] = Inr [a, b]"
  "Promise_all [0, Suc 0] [Inr a, Inr b] = Inr [a, b]"
  by (simp_all add: Promise_all_def)

lemma collect_attempts_xy:
  assumes "settle_order e = (\<lambda>tid i. [3, 2, 1, 0]) \<or> settle_order e = (\<lambda>tid i. [0, 1])"
  shows "collectAttachments e inline_opts dir testId 0 [] attempts_xy =
     Inr [(\<lparr>att_name = ''x'', att_contentType = ''text/plain'',
             att_path = ''data:text/plain;base64,'' @ toString_base64 e [1]\<rparr>, []),
          (\<lparr>att_name = ''y'', att_contentType = ''text/plain'',
             att_path = ''data:text/plain;base64,'' @ toString_base64 e [1, 2]\<rparr>, []),
          (\<lparr>att_name = ''x'', att_contentType = ''text/plain'',
             att_path = ''data:text/plain;base64,'' @ toString_base64 e [1, 2, 3]\<rparr>, []),
          (\<lparr>att_name = ''y'', att_contentType = ''text/plain'',
             att_path = ''data:text/plain;base64,'' @ toString_base64 e [1, 2, 3, 4]\<rparr>, [])]"
  using assms
  by (auto simp: attempts_xy_def attachment_promises_def processAttachment_plain Promise_all_two)

theorem attachment_order_witness:
  "\<exists>st'. processEntry env0 inline_opts dir0 resetState (test_login, attempts_xy) = Inr st'
      \<and> map att_name (t_attachments (last (allTests st'))) = [''x'', ''y'', ''x'', ''y'']
      \<and> map att_path (t_attachments (last (allTests st'))) =
          [''data:text/plain;base64,A'', ''data:text/plain;base64,AA'',
           ''data:text/plain;base64,AAA'', ''data:text/plain;base64,AAAA'']
      \<and> processEntry (env0\<lparr>settle_order := (\<lambda>tid i. [0, 1])\<rparr>) inline_opts dir0 resetState
           (test_login, attempts_xy) = Inr st'"
proof -
  have ne: "attempts_xy \<noteq> []"
    by (simp add: attempts_xy_def)
  have "\<exists>c. collectAttachments env0 inline_opts dir0 (test_id test_login) 0 [] attempts_xy = Inr c"
    using collect_attempts_xy [of env0] by (simp add: env0_def)
  then obtain s1 where
    s1: "processEntry env0 inline_opts dir0 resetState (test_login, attempts_xy) = Inr s1"
    by (auto simp: processEntry_def ne Let_def)
  have "\<exists>c. collectAttachments (env0\<lparr>settle_order := (\<lambda>tid i. [0, 1])\<rparr>) inline_opts dir0
           (test_id test_login) 0 [] attempts_xy = Inr c"
    using collect_attempts_xy [of "env0\<lparr>settle_order := (\<lambda>tid i. [0, 1])\<rparr>"] by simp
  then obtain s2 where
    s2: "processEntry (env0\<lparr>settle_order := (\<lambda>tid i. [0, 1])\<rparr>) inline_opts dir0 resetState
           (test_login, attempts_xy) = Inr s2"
    by (auto simp: processEntry_def ne Let_def)
  note ao = attachment_order [OF s1]
  have names: "map att_name (t_attachments (last (allTests s1))) = [''x'', ''y'', ''x'', ''y'']"
    using ao by (simp add: attempts_xy_def plain_attachment_def)
  have b64: "toString_base64 env0 b = replicate (length b) CHR ''A''" for b
    by (simp add: env0_def)
  have "map Inr (t_attachments (last (allTests s1))) =
      (map Inr
        [\<lparr>att_name = ''x'', att_contentType = ''text/plain'',
          att_path = ''data:text/plain;base64,A''\<rparr>,
         \<lparr>att_name = ''y'', att_contentType = ''text/plain'',
          att_path = ''data:text/plain;base64,AA''\<rparr>,
         \<lparr>att_name = ''x'', att_contentType = ''text/plain'',
          att_path = ''data:text/plain;base64,AAA''\<rparr>,
         \<lparr>att_name = ''y'', att_contentType = ''text/plain'',
          att_path = ''data:text/plain;base64,AAAA''\<rparr>] :: (error + materialized) list)"
    unfolding conjunct1 [OF conjunct2 [OF ao]]
    by (simp add: attempts_xy_def attachment_promises_def processAttachment_plain b64)
  then have "t_attachments (last (allTests s1)) =
        [\<lparr>att_name = ''x'', att_contentType = ''text/plain'',
          att_path = ''data:text/plain;base64,A''\<rparr>,
         \<lparr>att_name = ''y'', att_contentType = ''text/plain'',
          att_path = ''data:text/plain;base64,AA''\<rparr>,
         \<lparr>att_name = ''x'', att_contentType = ''text/plain'',
          att_path = ''data:text/plain;base64,AAA''\<rparr>,
         \<lparr>att_name = ''y'', att_contentType = ''text/plain'',
          att_path = ''data:text/plain;base64,AAAA''\<rparr>]"
    by (simp only: inj_map_eq_map [OF inj_Inr])
  then have paths: "map att_path (t_attachments (last (allTests s1))) =
          [''data:text/plain;base64,A'', ''data:text/plain;base64,AA'',
           ''data:text/plain;base64,AAA'', ''data:text/plain;base64,AAAA'']"
    by simp
  have "s2 = s1"
    by (rule mp [OF spec [OF spec [OF conjunct2 [OF conjunct2 [OF ao]]]] s2])
  with s2 have s2': "processEntry (env0\<lparr>settle_order := (\<lambda>tid i. [0, 1])\<rparr>) inline_opts dir0
      resetState (test_login, attempts_xy) = Inr s1"
    by (simp only:)
  show ?thesis
  proof (intro exI conjI)
    show "processEntry env0 inline_opts dir0 resetState (test_login, attempts_xy) = Inr s1"
      by (rule s1)
  qed (rule names paths s2')+
qed


subsection \<open>The history ledger: upsert\<close>

lemma filter_upsert_first:
  "P x \<Longrightarrow>
   filter P (case findIndex P xs of Some i \<Rightarrow> xs[i := x] | None \<Rightarrow> xs @ [x]) = x # tl (filter P xs)"
proof (induction xs)
  case Nil
  then show ?case by simp
next
  case (Cons y ys)
  show ?case
  proof (cases "P y")
    case True
    with Cons.prems show ?thesis by simp
  next
    case False
    with Cons show ?thesis
      by (cases "findIndex P ys") simp_all
  qed
qed

lemma entries_for_upsert:
  "entries_for (h_buildNo x) (upsert x ledger) = x # tl (entries_for (h_buildNo x) ledger)"
  unfolding entries_for_def upsert_def
  by (rule filter_upsert_first) simp

text \<open>
  Claim C5, as amended. In a ledger that holds at most one entry for a build identifier,
  upserting two entries with that identifier, in either order and with any counts,
  leaves exactly one entry for it: the one upserted last.
\<close>

theorem upsert_twice:
  assumes "h_buildNo e1 = b" and "h_buildNo e2 = b"
    and "length (entries_for b ledger) \<le> 1"
  shows "entries_for b (upsert e2 (upsert e1 ledger)) = [e2]"
proof -
  from assms(3) have "tl (entries_for b ledger) = []"
    by (cases "entries_for b ledger") simp_all
  then have "entries_for b (upsert e1 ledger) = [e1]"
    using entries_for_upsert [of e1 ledger] assms(1) by simp
  then show ?thesis
    using entries_for_upsert [of e2 "upsert e1 ledger"] assms(2) by simp
qed

theorem upsert_twice_witness:
  "length (entries_for ''B1'' ledger_ok) \<le> 1
   \<and> entries_for ''B1'' (upsert run_b (upsert run_a ledger_ok)) = [run_b]
   \<and> entries_for ''B1'' (upsert run_a (upsert run_b ledger_ok)) = [run_a]"
proof -
  have one: "length (entries_for ''B1'' ledger_ok) \<le> 1"
    by (simp add: entries_for_def ledger_ok_def)
  have a: "h_buildNo run_a = ''B1''" and b: "h_buildNo run_b = ''B1''"
    by (simp_all add: run_a_def run_b_def)
  from one upsert_twice [OF a b one] upsert_twice [OF b a one] show ?thesis
    by (intro conjI)
qed

text \<open>
  Claim C5 as stated, for every ledger state, fails on a ledger whose file already holds
  two entries for the build: \<open>findIndex\<close> finds the first one only, so the second, stale
  entry stays beside the new one.
\<close>

theorem upsert_twice_counterexample:
  "entries_for ''B1'' (upsert run_b (upsert run_a ledger_dup)) =
     [run_b,
      \<lparr>h_buildNo = ''B1'', h_total = 10, h_passed = 8, h_timestamp = ''2025-01-02T10:00:00.000Z''\<rparr>]"
  by (simp add: entries_for_def upsert_def ledger_dup_def run_a_def run_b_def)


subsection \<open>The history ledger: sort and trim\<close>

lemma shift_loop_drop:
  assumes "\<And>n. num_less limit (Fin (real n)) = (k < n)"
  shows "shift_loop limit xs = Some (drop (length xs - k) xs)"
proof (induction xs)
  case Nil
  show ?case
    by (subst shift_loop.simps) (simp only: assms, simp)
next
  case (Cons x xs)
  show ?case
  proof (cases "k < Suc (length xs)")
    case True
    then have "Suc (length xs) - k = Suc (length xs - k)" by simp
    with True Cons show ?thesis
      by (subst shift_loop.simps) (simp only: assms, simp)
  next
    case False
    then show ?thesis
      by (subst shift_loop.simps) (simp only: assms, simp)
  qed
qed


lemma shift_loop_nonneg:
  assumes "0 \<le> r"
  shows "shift_loop (Fin r) xs = Some (drop (length xs - nat \<lfloor>r\<rfloor>) xs)"
proof (rule shift_loop_drop)
  fix n :: nat
  have "r < real n \<longleftrightarrow> \<lfloor>r\<rfloor> < int n"
    by (simp add: floor_less_iff)
  also have "\<dots> \<longleftrightarrow> nat \<lfloor>r\<rfloor> < n"
    using assms by (simp add: nat_less_iff)
  finally show "num_less (Fin r) (Fin (real n)) = (nat \<lfloor>r\<rfloor> < n)" by simp
qed



lemma mset_insert_by: "mset (insert_by cmp x ys) = add_mset x (mset ys)"
  by (induction ys) simp_all

lemma mset_Array_sort: "mset (Array_sort cmp xs) = mset xs"
  by (induction xs) (simp_all add: Array_sort_def mset_insert_by)










subsection \<open>Missing attachment sources and unparsable history\<close>

lemma string_of_digit: "n < 10 \<Longrightarrow> string_of_nat n = [char_of (48 + n)]"
  by (simp add: string_of_nat.simps)

lemma digit_chars: "char_of (48::nat) = CHR ''0''" "char_of (53::nat) = CHR ''5''"
  by (simp_all add: char_of_def bit_0)

lemma read_buffer_missing:
  "existing_path e a = None \<Longrightarrow> body a = None \<Longrightarrow> read_buffer e a = Inr None"
  by (simp add: read_buffer_def)

text \<open>
  Claim C7, as amended. For a raw attachment whose path is absent, empty or names
  nothing that exists, and which carries no byte buffer, materialisation does not reject
  and writes nothing: in inline mode it returns an empty reference with the declared
  content type, in stored mode the relative reference of a file that is not written.
\<close>

theorem missing_source_placeholder:
  assumes "existing_path e a = None" and "body a = None"
  shows "processAttachment e opts dir now a testId r =
           Inr (\<lparr>att_name = name a,
                 att_contentType = or_string (contentType a) ''application/octet-stream'',
                 att_path = (if embedAssets opts then []
                             else path_join e ''attachments'' (attachmentFileName testId a r now))\<rparr>,
                [])"
proof (cases "embedAssets opts")
  case True
  then show ?thesis
    by (simp add: processAttachment_def getEmbeddedAssetData_def read_buffer_missing [OF assms])
next
  case False
  then show ?thesis
    by (simp add: processAttachment_def assms)
qed

lemma existing_path_lost_video: "existing_path env0 lost_video = None"
  by (simp add: existing_path_def lost_video_def env0_def)

theorem missing_source_placeholder_witness:
  "existing_path env0 lost_video = None \<and> body lost_video = None
   \<and> processAttachment env0 inline_opts dir0 5 lost_video ''t-login'' 0 =
       Inr (\<lparr>att_name = ''video'', att_contentType = ''video/webm'', att_path = []\<rparr>, [])
   \<and> processAttachment env0 (MyCustomReporter_constructor None) dir0 5 lost_video ''t-login'' 0 =
       Inr (\<lparr>att_name = ''video'', att_contentType = ''video/webm'',
             att_path = ''attachments/t-login-video-0-5.webm''\<rparr>, [])"
proof -
  have b: "body lost_video = None"
    by (simp add: lost_video_def)
  have stored: "\<not> embedAssets (MyCustomReporter_constructor None)"
    by (simp add: MyCustomReporter_constructor_def defaulted_def chain_def nullish_def)
  have fn: "attachmentFileName ''t-login'' lost_video 0 5 = ''t-login-video-0-5.webm''"
    by (simp add: attachmentFileName_def lost_video_def string_of_digit or_string_def chain_def
        at_index_def digit_chars)
  have pj: "path_join env0 x y = x @ ''/'' @ y" for x y
    by (simp add: env0_def)
  from missing_source_placeholder [OF existing_path_lost_video b, of inline_opts dir0 5 "''t-login''" 0]
  have i: "processAttachment env0 inline_opts dir0 5 lost_video ''t-login'' 0 =
       Inr (\<lparr>att_name = ''video'', att_contentType = ''video/webm'', att_path = []\<rparr>, [])"
    by (simp add: inline_opts_flags) (simp add: lost_video_def or_string_def)
  from missing_source_placeholder [OF existing_path_lost_video b,
      of "MyCustomReporter_constructor None" dir0 5 "''t-login''" 0]
  have s: "processAttachment env0 (MyCustomReporter_constructor None) dir0 5 lost_video ''t-login'' 0 =
       Inr (\<lparr>att_name = ''video'', att_contentType = ''video/webm'',
             att_path = ''attachments/t-login-video-0-5.webm''\<rparr>, [])"
    by (simp add: stored fn pj) (simp add: lost_video_def or_string_def)
  from existing_path_lost_video b i s show ?thesis
    by (intro conjI)
qed

lemma existing_path_trace_dir: "existing_path env_dir trace_dir = Some ''/work/test-results/trace''"
  by (simp add: existing_path_def trace_dir_def env_dir_def)

text \<open>
  Claim C7 as stated, for every declared path that does not resolve to readable bytes,
  fails when the path exists but cannot be read as a file (a directory here): the guard is
  \<open>fs.existsSync\<close> only, so \<open>readFile\<close> and \<open>copyFile\<close> are called and their rejection is the
  result, in inline and in stored mode.
\<close>

theorem missing_source_counterexample:
  "body trace_dir = None
   \<and> read_buffer env_dir trace_dir = Inl (FsError ''EISDIR'')
   \<and> processAttachment env_dir inline_opts dir0 5 trace_dir ''t-login'' 0 = Inl (FsError ''EISDIR'')
   \<and> processAttachment env_dir (MyCustomReporter_constructor None) dir0 5 trace_dir ''t-login'' 0
       = Inl (FsError ''EISDIR'')"
proof -
  have b: "body trace_dir = None"
    by (simp add: trace_dir_def)
  have rf: "readFile env_dir p = Inl (FsError ''EISDIR'')" for p
    by (simp add: env_dir_def)
  have cf: "copyFile env_dir p q = Some (FsError ''EISDIR'')" for p q
    by (simp add: env_dir_def)
  have rb: "read_buffer env_dir trace_dir = Inl (FsError ''EISDIR'')"
    by (simp add: read_buffer_def existing_path_trace_dir rf)
  have stored: "\<not> embedAssets (MyCustomReporter_constructor None)"
    by (simp add: MyCustomReporter_constructor_def defaulted_def chain_def nullish_def)
  have i: "processAttachment env_dir inline_opts dir0 5 trace_dir ''t-login'' 0 = Inl (FsError ''EISDIR'')"
    by (simp add: processAttachment_def inline_opts_flags getEmbeddedAssetData_def rb)
  have s: "processAttachment env_dir (MyCustomReporter_constructor None) dir0 5 trace_dir ''t-login'' 0
       = Inl (FsError ''EISDIR'')"
    by (simp add: processAttachment_def stored existing_path_trace_dir cf)
  from b rb i s show ?thesis
    by (intro conjI)
qed

text \<open>
  Claim C9. When the history file exists and its contents fail to parse, the load block of
  \<open>onBegin\<close> does not throw: with history reset off it leaves the empty list in
  \<open>historyData\<close>; with history reset on the file is removed instead of loaded and
  \<open>historyData\<close> is left as it was (the empty list in a new reporter).
\<close>

theorem loadHistory_unparsable:
  assumes "existsSync e historyFilePath"
    and "readFileSync e historyFilePath = Inr content"
    and "JSON_parse e content = Inl err"
  shows "(\<not> resetHistory opts \<longrightarrow> loadHistory e opts historyFilePath historyData = Inr [])
       \<and> (resetHistory opts \<and> unlinkSync e historyFilePath = None
            \<longrightarrow> loadHistory e opts historyFilePath historyData = Inr historyData)"
  using assms by (simp add: loadHistory_def try_catch_def)

theorem loadHistory_unparsable_witness:
  "existsSync env_badjson ''/work/playwright-custom-report/history.json''
   \<and> readFileSync env_badjson ''/work/playwright-custom-report/history.json''
        = Inr ''[{ truncated''
   \<and> JSON_parse env_badjson ''[{ truncated'' = Inl SyntaxError
   \<and> loadHistory env_badjson (MyCustomReporter_constructor None)
        ''/work/playwright-custom-report/history.json'' ledger_ok = Inr []
   \<and> loadHistory env_badjson (MyCustomReporter_constructor (Some (opts0\<lparr>opt_resetHistory := Some True\<rparr>)))
        ''/work/playwright-custom-report/history.json'' [] = Inr []"
proof -
  have ex: "existsSync env_badjson ''/work/playwright-custom-report/history.json''"
    by (simp add: env_badjson_def)
  have rd: "readFileSync env_badjson ''/work/playwright-custom-report/history.json''
        = Inr ''[{ truncated''"
    by (simp add: env_badjson_def)
  have ps: "JSON_parse env_badjson ''[{ truncated'' = Inl SyntaxError"
    by (simp add: env_badjson_def env0_def)
  have ul: "unlinkSync env_badjson ''/work/playwright-custom-report/history.json'' = None"
    by (simp add: env_badjson_def env0_def)
  have keep: "\<not> resetHistory (MyCustomReporter_constructor None)"
    by (simp add: MyCustomReporter_constructor_def defaulted_def chain_def nullish_def)
  have reset: "resetHistory (MyCustomReporter_constructor (Some (opts0\<lparr>opt_resetHistory := Some True\<rparr>)))"
    by (simp add: MyCustomReporter_constructor_def defaulted_def chain_def nullish_def opts0_def)
  from loadHistory_unparsable [OF ex rd ps, of "MyCustomReporter_constructor None" ledger_ok] keep
  have a: "loadHistory env_badjson (MyCustomReporter_constructor None)
        ''/work/playwright-custom-report/history.json'' ledger_ok = Inr []"
    by (simp only: simp_thms)
  from loadHistory_unparsable [OF ex rd ps,
      of "MyCustomReporter_constructor (Some (opts0\<lparr>opt_resetHistory := Some True\<rparr>))" "[]"] reset ul
  have b: "loadHistory env_badjson (MyCustomReporter_constructor (Some (opts0\<lparr>opt_resetHistory := Some True\<rparr>)))
        ''/work/playwright-custom-report/history.json'' [] = Inr []"
    by (simp only: simp_thms)
  from ex rd ps a b show ?thesis
    by (intro conjI)
qed


subsection \<open>Image compression\<close>

lemma getEmbeddedAssetData_compress:
  assumes "read_buffer e a = Inr (Some buf)"
    and "take 6 (or_string (contentType a) ''application/octet-stream'') = ''image/''"
    and "or_string (contentType a) ''application/octet-stream'' \<noteq> ''image/gif''"
    and "compressImages opts"
  shows "getEmbeddedAssetData e opts a =
     (case sharp_jpeg e buf (imageQuality opts) of
        Inr compressed \<Rightarrow>
          Inr (''data:image/jpeg;base64,'' @ toString_base64 e compressed, ''image/jpeg'')
      | Inl err \<Rightarrow>
          Inr (''data:'' @ or_string (contentType a) ''application/octet-stream'' @ '';base64,''
                 @ toString_base64 e buf,
               or_string (contentType a) ''application/octet-stream''))"
  using assms(2-4)
  by (simp add: getEmbeddedAssetData_def assms(1) Let_def split: sum.splits)

lemma processAttachment_stored:
  assumes "\<not> embedAssets opts"
    and "read_buffer e a = Inr (Some buf)"
    and "processAttachment e opts dir now a testId r = Inr (m, ops)"
  shows "att_contentType m = or_string (contentType a) ''application/octet-stream''"
    and "ops = (case existing_path e a of
                  Some p \<Rightarrow> [CopyFile p (path_join e dir (attachmentFileName testId a r now))]
                | None \<Rightarrow> [WriteFile (path_join e dir (attachmentFileName testId a r now)) buf])"
  using assms
  by (auto simp: processAttachment_def read_buffer_def Let_def split: option.splits sum.splits)

text \<open>
  Claim C8, as amended. Take an attachment with bytes to hand whose content type is an
  image type other than \<open>image/gif\<close>, and a configuration built by the constructor with
  compression enabled. The quality passed to the encoder is between 1 and 100. In inline
  mode the bytes are re-encoded before they are inlined and the content type becomes
  \<open>image/jpeg\<close>; when re-encoding fails the original bytes are inlined under the original
  content type, and no error is raised. In stored mode nothing is re-encoded: a
  materialisation that completes has copied the file or written the original bytes, under
  the declared content type.
\<close>

theorem compression_inline_only:
  assumes "opts = MyCustomReporter_constructor options"
    and "read_buffer e a = Inr (Some buf)"
    and "ct = or_string (contentType a) ''application/octet-stream''"
    and "take 6 ct = ''image/''" and "ct \<noteq> ''image/gif''"
    and "compressImages opts"
  shows "(\<exists>q. imageQuality opts = Fin q \<and> 1 \<le> q \<and> q \<le> 100)
       \<and> (embedAssets opts \<longrightarrow>
            (\<forall>compressed. sharp_jpeg e buf (imageQuality opts) = Inr compressed \<longrightarrow>
               processAttachment e opts dir now a testId r =
                 Inr (\<lparr>att_name = name a, att_contentType = ''image/jpeg'',
                       att_path = ''data:image/jpeg;base64,'' @ toString_base64 e compressed\<rparr>, []))
          \<and> (\<forall>err. sharp_jpeg e buf (imageQuality opts) = Inl err \<longrightarrow>
               processAttachment e opts dir now a testId r =
                 Inr (\<lparr>att_name = name a, att_contentType = ct,
                       att_path = ''data:'' @ ct @ '';base64,'' @ toString_base64 e buf\<rparr>, [])))
       \<and> (\<not> embedAssets opts \<longrightarrow>
            (\<forall>m ops. processAttachment e opts dir now a testId r = Inr (m, ops) \<longrightarrow>
               att_contentType m = ct
             \<and> ops = (case existing_path e a of
                  Some p \<Rightarrow> [CopyFile p (path_join e dir (attachmentFileName testId a r now))]
                | None \<Rightarrow> [WriteFile (path_join e dir (attachmentFileName testId a r now)) buf])))"
proof (intro conjI impI allI)
  show "\<exists>q. imageQuality opts = Fin q \<and> 1 \<le> q \<and> q \<le> 100"
    unfolding assms(1) imageQuality_cases by (rule clamp_range) (simp add: or_number_not_NaN)
next
  fix compressed
  assume "embedAssets opts" and "sharp_jpeg e buf (imageQuality opts) = Inr compressed"
  then show "processAttachment e opts dir now a testId r =
      Inr (\<lparr>att_name = name a, att_contentType = ''image/jpeg'',
            att_path = ''data:image/jpeg;base64,'' @ toString_base64 e compressed\<rparr>, [])"
    using getEmbeddedAssetData_compress [OF assms(2) assms(4,5) [unfolded assms(3)] assms(6)]
    by (simp add: processAttachment_def)
next
  fix err
  assume "embedAssets opts" and "sharp_jpeg e buf (imageQuality opts) = Inl err"
  then show "processAttachment e opts dir now a testId r =
      Inr (\<lparr>att_name = name a, att_contentType = ct,
            att_path = ''data:'' @ ct @ '';base64,'' @ toString_base64 e buf\<rparr>, [])"
    using getEmbeddedAssetData_compress [OF assms(2) assms(4,5) [unfolded assms(3)] assms(6)]
    by (simp add: processAttachment_def assms(3))
next
  fix m ops
  assume s: "\<not> embedAssets opts" and p: "processAttachment e opts dir now a testId r = Inr (m, ops)"
  show "att_contentType m = ct"
    unfolding assms(3) by (rule processAttachment_stored(1) [OF s assms(2) p])
  show "ops = (case existing_path e a of
                  Some p \<Rightarrow> [CopyFile p (path_join e dir (attachmentFileName testId a r now))]
                | None \<Rightarrow> [WriteFile (path_join e dir (attachmentFileName testId a r now)) buf])"
    by (rule processAttachment_stored(2) [OF s assms(2) p])
qed

lemma screenshot_facts:
  "read_buffer e screenshot = Inr (Some [1, 2, 3])"
  "existing_path e screenshot = None"
  "or_string (contentType screenshot) ''application/octet-stream'' = ''image/png''"
  "name screenshot = ''screenshot''"
  "attachmentFileName ''t-login'' screenshot 0 5 = ''t-login-screenshot-0-5.png''"
  by (simp_all add: read_buffer_def existing_path_def screenshot_def or_string_def
      attachmentFileName_def string_of_digit digit_chars chain_def at_index_def)

lemma default_opts_flags:
  "\<not> embedAssets (MyCustomReporter_constructor None)"
  "compressImages (MyCustomReporter_constructor None)"
  by (simp_all add: MyCustomReporter_constructor_def defaulted_def chain_def nullish_def)

lemma stored_screenshot:
  "processAttachment env0 (MyCustomReporter_constructor None) dir0 5 screenshot ''t-login'' 0 =
     Inr (\<lparr>att_name = ''screenshot'', att_contentType = ''image/png'',
           att_path = ''attachments/t-login-screenshot-0-5.png''\<rparr>,
          [WriteFile ''/work/playwright-custom-report/attachments/t-login-screenshot-0-5.png''
             [1, 2, 3]])"
proof -
  have pj: "path_join env0 x y = x @ ''/'' @ y" for x y
    by (simp add: env0_def)
  have wf: "writeFile env0 x y = None" for x y
    by (simp add: env0_def)
  have b: "body screenshot = Some [1, 2, 3]"
    by (simp add: screenshot_def)
  show ?thesis
    by (simp add: processAttachment_def default_opts_flags screenshot_facts pj wf b dir0_def)
qed

theorem compression_inline_only_witness:
  "processAttachment env0 inline_opts dir0 5 screenshot ''t-login'' 0 =
     Inr (\<lparr>att_name = ''screenshot'', att_contentType = ''image/jpeg'',
           att_path = ''data:image/jpeg;base64,A''\<rparr>, [])
   \<and> processAttachment env_nosharp inline_opts dir0 5 screenshot ''t-login'' 0 =
     Inr (\<lparr>att_name = ''screenshot'', att_contentType = ''image/png'',
           att_path = ''data:image/png;base64,AAA''\<rparr>, [])
   \<and> att_contentType (fst (projr (processAttachment env0 (MyCustomReporter_constructor None) dir0 5
         screenshot ''t-login'' 0))) = ''image/png''
   \<and> snd (projr (processAttachment env0 (MyCustomReporter_constructor None) dir0 5
         screenshot ''t-login'' 0)) =
       [WriteFile ''/work/playwright-custom-report/attachments/t-login-screenshot-0-5.png'' [1, 2, 3]]"
proof -
  have io: "inline_opts = MyCustomReporter_constructor (Some (opts0\<lparr>opt_embedAssets := Some True\<rparr>))"
    by (simp add: inline_opts_def)
  have img: "take 6 ''image/png'' = ''image/''" and notgif: "''image/png'' \<noteq> ''image/gif''"
    by simp_all
  have ct: "''image/png'' = or_string (contentType screenshot) ''application/octet-stream''"
    by (simp add: screenshot_facts)
  have b64: "toString_base64 env0 b = replicate (length b) CHR ''A''"
    "toString_base64 env_nosharp b = replicate (length b) CHR ''A''" for b
    by (simp_all add: env0_def env_nosharp_def)
  have ok: "sharp_jpeg env0 [1, 2, 3] (imageQuality inline_opts) = Inr [1]"
    by (simp add: env0_def)
  have bad: "sharp_jpeg env_nosharp [1, 2, 3] (imageQuality inline_opts) = Inl SharpError"
    by (simp add: env_nosharp_def)
  note inl = compression_inline_only
    [OF io screenshot_facts(1) ct img notgif inline_opts_flags(2), of _ dir0 5 "''t-login''" 0]
  have a: "processAttachment env0 inline_opts dir0 5 screenshot ''t-login'' 0 =
     Inr (\<lparr>att_name = ''screenshot'', att_contentType = ''image/jpeg'',
           att_path = ''data:image/jpeg;base64,A''\<rparr>, [])"
    using inl [of env0] ok inline_opts_flags(1)
    by (simp add: b64 screenshot_facts)
  have b: "processAttachment env_nosharp inline_opts dir0 5 screenshot ''t-login'' 0 =
     Inr (\<lparr>att_name = ''screenshot'', att_contentType = ''image/png'',
           att_path = ''data:image/png;base64,AAA''\<rparr>, [])"
    using inl [of env_nosharp] bad inline_opts_flags(1)
    by (simp add: b64 screenshot_facts)
  note st = compression_inline_only
    [OF refl screenshot_facts(1) ct img notgif default_opts_flags(2),
     of env0 dir0 5 "''t-login''" 0]
  have c: "att_contentType (fst (projr (processAttachment env0 (MyCustomReporter_constructor None) dir0 5
         screenshot ''t-login'' 0))) = ''image/png''
     \<and> snd (projr (processAttachment env0 (MyCustomReporter_constructor None) dir0 5
         screenshot ''t-login'' 0)) =
       [WriteFile ''/work/playwright-custom-report/attachments/t-login-screenshot-0-5.png'' [1, 2, 3]]"
    using st default_opts_flags(1) stored_screenshot
    by (simp add: screenshot_facts)
  from a b c show ?thesis
    by (intro conjI) simp_all
qed

text \<open>
  Claim C8 as stated, re-encoding before either inlining or storing, fails in stored mode
  (the default): with compression enabled and an encoder that would succeed, a PNG is
  written with its original bytes and keeps the content type \<open>image/png\<close>.
\<close>

theorem compression_stored_counterexample:
  "compressImages (MyCustomReporter_constructor None)
   \<and> sharp_jpeg env0 [1, 2, 3] (imageQuality (MyCustomReporter_constructor None)) = Inr [1]
   \<and> processAttachment env0 (MyCustomReporter_constructor None) dir0 5 screenshot ''t-login'' 0 =
       Inr (\<lparr>att_name = ''screenshot'', att_contentType = ''image/png'',
             att_path = ''attachments/t-login-screenshot-0-5.png''\<rparr>,
            [WriteFile ''/work/playwright-custom-report/attachments/t-login-screenshot-0-5.png''
               [1, 2, 3]])"
proof -
  have "sharp_jpeg env0 [1, 2, 3] (imageQuality (MyCustomReporter_constructor None)) = Inr [1]"
    by (simp add: env0_def)
  with default_opts_flags(2) stored_screenshot show ?thesis
    by (intro conjI)
qed


subsection \<open>Completion of the consolidation loop\<close>

lemma read_buffer_completes:
  assumes "\<forall>p. existsSync e p \<longrightarrow> (\<exists>b. readFile e p = Inr b)"
  shows "\<exists>b. read_buffer e a = Inr b"
proof (cases "existing_path e a")
  case None
  then show ?thesis by (simp add: read_buffer_def)
next
  case (Some p)
  then have "existsSync e p"
    by (auto simp: existing_path_def split: option.splits if_splits)
  with assms Some show ?thesis
    by (auto simp: read_buffer_def)
qed

lemma getEmbeddedAssetData_completes:
  assumes "\<forall>p. existsSync e p \<longrightarrow> (\<exists>b. readFile e p = Inr b)"
  shows "\<exists>v. getEmbeddedAssetData e opts a = Inr v"
proof -
  from read_buffer_completes [OF assms] obtain b where "read_buffer e a = Inr b"
    by blast
  then show ?thesis
    by (cases b) (simp_all add: getEmbeddedAssetData_def Let_def split: sum.splits prod.splits)
qed

lemma processAttachment_completes:
  assumes "\<forall>p. existsSync e p \<longrightarrow> (\<exists>b. readFile e p = Inr b)"
    and "\<forall>src dst. copyFile e src dst = None"
    and "\<forall>dst b. writeFile e dst b = None"
  shows "\<exists>v. processAttachment e opts dir now a testId r = Inr v"
proof (cases "embedAssets opts")
  case True
  from getEmbeddedAssetData_completes [OF assms(1)] obtain v where
    "getEmbeddedAssetData e opts a = Inr v"
    by blast
  with True show ?thesis
    by (cases v) (simp add: processAttachment_def)
next
  case False
  then show ?thesis
    by (simp add: processAttachment_def Let_def assms(2,3) split: option.splits)
qed

lemma those_completes: "None \<notin> set xs \<Longrightarrow> \<exists>ys. those xs = Some ys"
proof (induction xs)
  case Nil
  show ?case by simp
next
  case (Cons x xs)
  then show ?case by (cases x) auto
qed

lemma settle_completes:
  assumes "\<forall>p \<in> set promises. \<exists>v. p = Inr v"
  shows "length vals = length promises \<Longrightarrow>
         \<exists>vals'. settle promises order vals = Inr vals' \<and> length vals' = length promises \<and>
           (\<forall>i < length promises. i \<in> set order \<or> vals ! i \<noteq> None \<longrightarrow> vals' ! i \<noteq> None)"
proof (induction order arbitrary: vals)
  case Nil
  then show ?case by simp
next
  case (Cons k order)
  show ?case
  proof (cases "k < length promises")
    case False
    with Cons.IH [OF Cons.prems] show ?thesis by auto
  next
    case True
    then obtain v where v: "promises ! k = Inr v"
      using assms nth_mem by blast
    have "length (vals[k := Some v]) = length promises"
      using Cons.prems by simp
    from Cons.IH [OF this] obtain vals' where
      s: "settle promises order (vals[k := Some v]) = Inr vals'"
      and l: "length vals' = length promises"
      and f: "\<And>i. i < length promises \<Longrightarrow> i \<in> set order \<or> (vals[k := Some v]) ! i \<noteq> None
                \<Longrightarrow> vals' ! i \<noteq> None"
      by blast
    have "vals' ! i \<noteq> None"
      if i: "i < length promises" and d: "i \<in> set (k # order) \<or> vals ! i \<noteq> None" for i
    proof (rule f [OF i])
      show "i \<in> set order \<or> (vals[k := Some v]) ! i \<noteq> None"
      proof (cases "i = k")
        case True
        with i Cons.prems show ?thesis by simp
      next
        case False
        with d show ?thesis by auto
      qed
    qed
    with s l True v show ?thesis by simp
  qed
qed

lemma Promise_all_completes:
  assumes "\<forall>p \<in> set promises. \<exists>v. p = Inr v"
    and "\<forall>i < length promises. i \<in> set order"
  shows "\<exists>vs. Promise_all order promises = Inr vs"
proof -
  from settle_completes [OF assms(1), where vals = "replicate (length promises) None"
      and order = order]
  obtain vals where s: "settle promises order (replicate (length promises) None) = Inr vals"
    and l: "length vals = length promises"
    and f: "\<forall>i < length promises. i \<in> set order \<or> replicate (length promises) None ! i \<noteq> None
              \<longrightarrow> vals ! i \<noteq> None"
    by auto
  have "None \<notin> set vals"
    using f l assms(2) by (auto simp: in_set_conv_nth)
  from those_completes [OF this] s show ?thesis
    by (auto simp: Promise_all_def)
qed

lemma collectAttachments_completes:
  assumes "\<forall>p. existsSync e p \<longrightarrow> (\<exists>b. readFile e p = Inr b)"
    and "\<forall>src dst. copyFile e src dst = None"
    and "\<forall>dst b. writeFile e dst b = None"
  shows "\<forall>res \<in> set results. \<forall>i. \<forall>j < length (attachments res). j \<in> set (settle_order e testId i)
     \<Longrightarrow> \<exists>collected. collectAttachments e opts dir testId i acc results = Inr collected"
proof (induction results arbitrary: i acc)
  case Nil
  show ?case by simp
next
  case (Cons res rest)
  have "\<exists>vs. Promise_all (settle_order e testId i) (attachment_promises e opts dir testId i res) = Inr vs"
  proof (rule Promise_all_completes)
    show "\<forall>p \<in> set (attachment_promises e opts dir testId i res). \<exists>v. p = Inr v"
      using processAttachment_completes [OF assms]
      by (auto simp: attachment_promises_def)
    show "\<forall>j < length (attachment_promises e opts dir testId i res). j \<in> set (settle_order e testId i)"
      using Cons.prems by (simp add: attachment_promises_def)
  qed
  then obtain vs where
    vs: "Promise_all (settle_order e testId i) (attachment_promises e opts dir testId i res) = Inr vs"
    by blast
  have "\<exists>collected. collectAttachments e opts dir testId (Suc i) (acc @ vs) rest = Inr collected"
    by (rule Cons.IH) (use Cons.prems in simp)
  with vs show ?case by simp
qed

lemma processEntries_completes:
  assumes "\<forall>p. existsSync e p \<longrightarrow> (\<exists>b. readFile e p = Inr b)"
    and "\<forall>src dst. copyFile e src dst = None"
    and "\<forall>dst b. writeFile e dst b = None"
  shows "\<forall>(test, results) \<in> set entries. results \<noteq> [] \<and>
           (\<forall>res \<in> set results. \<forall>i. \<forall>j < length (attachments res).
              j \<in> set (settle_order e (test_id test) i))
     \<Longrightarrow> \<exists>st'. processEntries e opts dir st entries = Inr st'"
proof (induction entries arbitrary: st)
  case Nil
  show ?case by simp
next
  case (Cons entry entries)
  obtain test results where entry: "entry = (test, results)" by (cases entry)
  from Cons.prems have ne: "results \<noteq> []"
    and so: "\<forall>res \<in> set results. \<forall>i. \<forall>j < length (attachments res).
              j \<in> set (settle_order e (test_id test) i)"
    by (simp_all add: entry)
  from collectAttachments_completes [OF assms so]
  have "\<exists>c. collectAttachments e opts dir (test_id test) 0 [] results = Inr c" .
  then obtain st1 where st1: "processEntry e opts dir st entry = Inr st1"
    by (auto simp: processEntry_def entry ne Let_def)
  have "\<exists>st'. processEntries e opts dir st1 entries = Inr st'"
    by (rule Cons.IH) (use Cons.prems in simp)
  with st1 show ?case by simp
qed

lemma onTestEnd_entries:
  assumes "(k, (t, rs)) \<in> set (onTestEnd tm test result)"
  shows "(k, (t, rs)) \<in> set tm \<or> rs = [result]
       \<or> (\<exists>rs'. (k, (t, rs')) \<in> set tm \<and> rs = rs' @ [result])"
  using assms
  by (auto simp: onTestEnd_def split: option.splits if_splits)

lemma accumulate_entries:
  assumes "(k, (t, rs)) \<in> set (foldl (\<lambda>tm (test, result). onTestEnd tm test result) tm events)"
    and "\<forall>(k, (t, rs)) \<in> set tm. rs \<noteq> [] \<and> set rs \<subseteq> R"
    and "snd ` set events \<subseteq> R"
  shows "rs \<noteq> [] \<and> set rs \<subseteq> R"
  using assms
proof (induction events arbitrary: tm)
  case Nil
  then show ?case by auto
next
  case (Cons ev events)
  obtain test result where ev: "ev = (test, result)" by (cases ev)
  have r: "result \<in> R" using Cons.prems(3) by (auto simp: ev)
  show ?case
  proof (rule Cons.IH)
    show "(k, (t, rs)) \<in> set (foldl (\<lambda>tm (test, result). onTestEnd tm test result)
        (onTestEnd tm test result) events)"
      using Cons.prems(1) by (simp add: ev)
  next
    show "\<forall>(k, (t, rs)) \<in> set (onTestEnd tm test result). rs \<noteq> [] \<and> set rs \<subseteq> R"
    proof (clarify)
      fix k t rs assume "(k, (t, rs)) \<in> set (onTestEnd tm test result)"
      from onTestEnd_entries [OF this] Cons.prems(2) r
      show "rs \<noteq> [] \<and> set rs \<subseteq> R" by fastforce
    qed
  next
    show "snd ` set events \<subseteq> R" using Cons.prems(3) by simp
  qed
qed

text \<open>
  The loop of \<open>onEnd\<close> completes for every run when files that exist can be read,
  nothing fails to be copied or written, and every materialisation settles.
\<close>

lemma consolidate_run_completes:
  assumes "\<forall>p. existsSync e p \<longrightarrow> (\<exists>b. readFile e p = Inr b)"
    and "\<forall>src dst. copyFile e src dst = None"
    and "\<forall>dst b. writeFile e dst b = None"
    and "\<forall>(test, res) \<in> set events. \<forall>tid i. \<forall>j < length (attachments res).
           j \<in> set (settle_order e tid i)"
  shows "\<exists>st. consolidate_run e opts dir events = Inr st"
  unfolding consolidate_run_def
proof (rule processEntries_completes [OF assms(1-3)], clarify)
  fix test results
  assume "(test, results) \<in> set (map snd (accumulate events))"
  then obtain k where "(k, (test, results)) \<in> set (accumulate events)" by auto
  from accumulate_entries [OF this [unfolded accumulate_def], of "snd ` set events"]
  have ne: "results \<noteq> []" and sub: "set results \<subseteq> snd ` set events" by simp_all
  have "j \<in> set (settle_order e (test_id test) i)"
    if "res \<in> set results" "j < length (attachments res)" for res i j
  proof -
    from that(1) sub obtain t where "(t, res) \<in> set events" by auto
    with assms(4) that(2) show ?thesis by blast
  qed
  with ne show "results \<noteq> [] \<and>
           (\<forall>res \<in> set results. \<forall>i. \<forall>j < length (attachments res).
              j \<in> set (settle_order e (test_id test) i))"
    by blast
qed


subsection \<open>The history ledger: one entry per build\<close>

lemma findIndex_Some:
  "findIndex P xs = Some i \<Longrightarrow> i < length xs \<and> P (xs ! i)"
proof (induction xs arbitrary: i)
  case Nil
  then show ?case by simp
next
  case (Cons x xs)
  then show ?case
    by (cases "P x") auto
qed

lemma findIndex_None: "findIndex P xs = None \<Longrightarrow> \<forall>x \<in> set xs. \<not> P x"
  by (induction xs) (auto split: if_splits)

lemma distinct_upsert:
  assumes "distinct (map h_buildNo ledger)"
  shows "distinct (map h_buildNo (upsert x ledger))"
proof (cases "findIndex (\<lambda>h. h_buildNo h = h_buildNo x) ledger")
  case None
  from findIndex_None [OF this] have "h_buildNo x \<notin> set (map h_buildNo ledger)"
    by auto
  with assms None show ?thesis
    by (simp add: upsert_def)
next
  case (Some i)
  from findIndex_Some [OF this] have "i < length ledger" "h_buildNo (ledger ! i) = h_buildNo x"
    by simp_all
  then have "map h_buildNo (ledger[i := x]) = map h_buildNo ledger"
    by (simp add: map_update list_update_same_conv)
  with assms Some show ?thesis
    by (simp add: upsert_def)
qed

lemma distinct_entries_for:
  "distinct (map h_buildNo ledger) \<Longrightarrow> length (entries_for b ledger) \<le> 1"
proof (induction ledger)
  case Nil
  show ?case by (simp add: entries_for_def)
next
  case (Cons h ledger)
  show ?case
  proof (cases "h_buildNo h = b")
    case True
    with Cons.prems have "b \<notin> h_buildNo ` set ledger" by simp
    then have "\<forall>x \<in> set ledger. h_buildNo x \<noteq> b" by blast
    then have "filter (\<lambda>h. h_buildNo h = b) ledger = []"
      by (simp add: filter_empty_conv)
    with True show ?thesis by (simp add: entries_for_def)
  next
    case False
    with Cons show ?thesis by (simp add: entries_for_def)
  qed
qed

lemma shift_loop_suffix:
  assumes "shift_loop limit xs = Some ys"
  shows "\<exists>n. ys = drop n xs"
proof (rule shift_loop.raw_induct [where P = "\<lambda>l h y. \<exists>n. y = drop n h", OF _ assms])
  fix f l h y
  assume IH: "\<And>a b y. f a b = Some y \<Longrightarrow> \<exists>n. y = drop n b"
    and step: "(if num_less l (Fin (real (length h)))
                then f l (case h of [] \<Rightarrow> [] | oldest # rest \<Rightarrow> rest)
                else Some h) = Some y"
  show "\<exists>n. y = drop n h"
  proof (cases "num_less l (Fin (real (length h)))")
    case False
    with step have "y = drop 0 h" by simp
    then show ?thesis by blast
  next
    case True
    with step have "f l (case h of [] \<Rightarrow> [] | oldest # rest \<Rightarrow> rest) = Some y"
      by simp
    from IH [OF this] obtain n where
      n: "y = drop n (case h of [] \<Rightarrow> [] | oldest # rest \<Rightarrow> rest)"
      by blast
    show ?thesis
    proof (cases h)
      case Nil
      with n show ?thesis by simp
    next
      case (Cons oldest rest)
      with n have "y = drop (Suc n) h" by simp
      then show ?thesis by blast
    qed
  qed
qed

text \<open>
  The history update of \<open>onEnd\<close> keeps build identifiers unique: a ledger that starts
  empty, or with one entry per build, never holds two entries for a build.
\<close>

lemma updateHistory_distinct:
  assumes "distinct (map h_buildNo ledger)"
    and "updateHistory e opts c ledger = Some ledger'"
  shows "distinct (map h_buildNo ledger')"
proof -
  let ?cur = "\<lparr> h_buildNo = or_string (Some (buildNo opts)) ''N/A'', h_total = total c,
                 h_passed = passed c, h_timestamp = Date_toISOString e \<rparr>"
  let ?sorted = "Array_sort (compareTimestamps e) (upsert ?cur ledger)"
  from assms(2) have "shift_loop (historyTrend opts) ?sorted = Some ledger'"
    by (simp add: updateHistory_def normalize_def Let_def)
  from shift_loop_suffix [OF this] obtain n where n: "ledger' = drop n ?sorted"
    by blast
  have "mset (map h_buildNo ?sorted) = mset (map h_buildNo (upsert ?cur ledger))"
    by (simp add: mset_Array_sort)
  then have "distinct (map h_buildNo ?sorted)"
    using distinct_upsert [OF assms(1), of ?cur] by (metis mset_eq_imp_distinct_iff)
  then show ?thesis
    unfolding n by (simp add: drop_map [symmetric] del: drop_map)
qed

end
